theory Spec2Isabelle
  imports Complex_Main "HOL-Library.Sublist" "HOL-Library.Multiset"
begin

section \<open>Python values\<close>

text \<open>
  A Python \<open>str\<close> is a sequence of code points. It is modelled as a \<open>string\<close> whose
  characters are the code points 0 to 255 (Latin-1), one \<open>char\<close> per code point: this
  range holds every character of the keyword lists, patterns and messages of the
  sources (for example \<open>CHR 0xED\<close> is the letter i with acute accent). Python's
  \<open>None\<close> in place of a string is the value \<open>None\<close> of \<open>pystr option\<close>.
  Counts are natural numbers (sums of ones and of list lengths); the integers read
  from a dictionary are \<open>int\<close>.
\<close>

type_synonym pystr = string

datatype py_error = OverflowError

subsection \<open>Character classes of Python 3 on the code points 0 to 255\<close>

text \<open>
  \<open>str.isspace\<close>, \<open>str.strip\<close>, \<open>str.split\<close> and the pattern \<open>\s\<close> use one
  set of white space: TAB, LF, VT, FF, CR, the separators 0x1C to 0x1F, the space,
  NEL (0x85) and the no-break space (0xA0). The pattern \<open>\d\<close> is the decimal digits,
  and \<open>\w\<close> the alphanumeric code points and the underscore.
\<close>

definition is_space :: "char \<Rightarrow> bool" where
  "is_space c = (let n = (of_char c :: nat)
                 in (9 \<le> n \<and> n \<le> 13) \<or> (28 \<le> n \<and> n \<le> 32) \<or> n = 133 \<or> n = 160)"

definition is_digit :: "char \<Rightarrow> bool" where
  "is_digit c = (let n = (of_char c :: nat) in 48 \<le> n \<and> n \<le> 57)"

definition is_ascii_upper :: "char \<Rightarrow> bool" where
  "is_ascii_upper c = (let n = (of_char c :: nat) in 65 \<le> n \<and> n \<le> 90)"

definition is_ascii_lower :: "char \<Rightarrow> bool" where
  "is_ascii_lower c = (let n = (of_char c :: nat) in 97 \<le> n \<and> n \<le> 122)"

definition is_word :: "char \<Rightarrow> bool" where
  "is_word c = (let n = (of_char c :: nat)
                in (48 \<le> n \<and> n \<le> 57) \<or> (65 \<le> n \<and> n \<le> 90) \<or> n = 95 \<or> (97 \<le> n \<and> n \<le> 122)
                   \<or> n = 170 \<or> n = 178 \<or> n = 179 \<or> n = 181 \<or> n = 185 \<or> n = 186
                   \<or> (188 \<le> n \<and> n \<le> 190) \<or> (192 \<le> n \<and> n \<le> 214)
                   \<or> (216 \<le> n \<and> n \<le> 246) \<or> (248 \<le> n \<and> n \<le> 255))"

text \<open>\<open>str.lower\<close>: the letters A to Z and 0xC0 to 0xDE (but not the sign 0xD7) move up by 32.\<close>

definition lower_char :: "char \<Rightarrow> char" where
  "lower_char c = (let n = (of_char c :: nat)
                   in if (65 \<le> n \<and> n \<le> 90) \<or> (192 \<le> n \<and> n \<le> 222 \<and> n \<noteq> 215)
                      then char_of (n + 32) else c)"

definition py_lower :: "pystr \<Rightarrow> pystr" where
  "py_lower s = map lower_char s"

subsection \<open>String methods\<close>

definition py_strip :: "pystr \<Rightarrow> pystr" where
  "py_strip s = rev (dropWhile is_space (rev (dropWhile is_space s)))"

text \<open>
  \<open>s.split()\<close> without a separator: the maximal runs of characters that are not white
  space, in order. The second argument is the run being read, reversed.
\<close>

fun split_run :: "pystr \<Rightarrow> pystr \<Rightarrow> pystr list" where
  "split_run [] cur = (if cur = [] then [] else [rev cur])"
| "split_run (c # cs) cur =
     (if is_space c then (if cur = [] then split_run cs [] else rev cur # split_run cs [])
      else split_run cs (c # cur))"

definition py_split :: "pystr \<Rightarrow> pystr list" where
  "py_split s = split_run s []"

fun py_join :: "pystr \<Rightarrow> pystr list \<Rightarrow> pystr" where
  "py_join sep [] = []"
| "py_join sep [x] = x"
| "py_join sep (x # y # ys) = x @ sep @ py_join sep (y # ys)"

text \<open>\<open>sub in s\<close> for strings: \<open>sub\<close> occurs in \<open>s\<close> as a contiguous block.\<close>

definition py_in :: "pystr \<Rightarrow> pystr \<Rightarrow> bool" where
  "py_in sub s = sublist sub s"

subsection \<open>Formatting an integer in an f-string\<close>

definition digit_char :: "nat \<Rightarrow> char" where
  "digit_char d = ''0123456789'' ! d"

fun str_nat :: "nat \<Rightarrow> pystr" where
  "str_nat n = (if n < 10 then [digit_char n] else str_nat (n div 10) @ [digit_char (n mod 10)])"

definition str_int :: "int \<Rightarrow> pystr" where
  "str_int i = (if i < 0 then CHR ''-'' # str_nat (nat (- i)) else str_nat (nat i))"

subsection \<open>Floating point\<close>

text \<open>
  A finite Python \<open>float\<close> (IEEE 754 binary64) is modelled by its exact value, a
  rational number. Every operation computes the exact result and rounds it to the
  nearest number with a 53 bit significand, ties to the even significand (\<open>rnd\<close>).
  \<open>expo x\<close> is the binary exponent of a positive \<open>x\<close>: \<open>2 powi expo x \<le> x < 2 powi (expo x + 1)\<close>.
  The exponent range is not bounded in \<open>rnd\<close>; the one place of the sources where a
  value can leave the range of binary64 is the conversion of an integer to a float,
  which raises \<open>OverflowError\<close> from \<open>2^1024 - 2^970\<close> on (the integers that round to \<open>2^1024\<close>).
  A float literal of the sources is the rounded decimal, \<open>rnd (3 / 10)\<close> for \<open>0.3\<close>.
\<close>

type_synonym pyfloat = rat

fun bitlen :: "nat \<Rightarrow> nat" where
  "bitlen n = (if n = 0 then 0 else Suc (bitlen (n div 2)))"

definition expo :: "rat \<Rightarrow> int" where
  "expo x = (let (a, b) = quotient_of x;
                 k = int (bitlen (nat a)) - int (bitlen (nat b))
             in if 2 powi k \<le> x then k else k - 1)"

definition round_half_even :: "rat \<Rightarrow> int" where
  "round_half_even q =
     (let f = \<lfloor>q\<rfloor>; r = q - of_int f
      in if r < 1 / 2 then f else if 1 / 2 < r then f + 1 else if even f then f else f + 1)"

definition rnd :: "rat \<Rightarrow> pyfloat" where
  "rnd x = (if x = 0 then 0
            else let u = 2 powi (expo \<bar>x\<bar> - 52) in of_int (round_half_even (x / u)) * u)"

definition fadd :: "pyfloat \<Rightarrow> pyfloat \<Rightarrow> pyfloat" where
  "fadd a b = rnd (a + b)"

definition fmul :: "pyfloat \<Rightarrow> pyfloat \<Rightarrow> pyfloat" where
  "fmul a b = rnd (a * b)"

definition int_to_float :: "nat \<Rightarrow> py_error + pyfloat" where
  "int_to_float n = (if 2 ^ 1024 - 2 ^ 970 \<le> n then Inl OverflowError else Inr (rnd (of_nat n)))"

text \<open>\<open>n * w\<close> for an integer \<open>n\<close> and a float \<open>w\<close>: the integer is converted first.\<close>

definition int_times_float :: "nat \<Rightarrow> pyfloat \<Rightarrow> py_error + pyfloat" where
  "int_times_float n w = (case int_to_float n of Inl e \<Rightarrow> Inl e | Inr x \<Rightarrow> Inr (fmul x w))"

subsection \<open>Regular expressions\<close>

text \<open>
  Every pattern of the sources is a sequence of single-character classes, each taken
  once, optionally (\<open>?\<close>) or any number of times (\<open>*\<close>), and of word boundaries
  (\<open>\b\<close>); \<open>c+\<close> is \<open>c\<close> followed by \<open>c*\<close> and \<open>c{n}\<close> is \<open>n\<close> copies of \<open>c\<close>.
  \<open>match_here\<close> is the backtracking matcher of the \<open>re\<close> module on such a sequence:
  the quantifiers are greedy, they take the character first and give it back when the
  rest of the pattern fails. It is given the character before the position (for
  \<open>\b\<close>) and the text from the position on, and returns the length of the match.
\<close>

datatype item = One "char \<Rightarrow> bool" | Opt "char \<Rightarrow> bool" | Star "char \<Rightarrow> bool" | Boundary

definition lit :: "char \<Rightarrow> char \<Rightarrow> bool" where
  "lit c = (\<lambda>x. x = c)"

definition lits :: "pystr \<Rightarrow> item list" where
  "lits s = map (\<lambda>c. One (lit c)) s"

definition plus :: "(char \<Rightarrow> bool) \<Rightarrow> item list" where
  "plus p = [One p, Star p]"

definition times :: "nat \<Rightarrow> (char \<Rightarrow> bool) \<Rightarrow> item list" where
  "times n p = replicate n (One p)"

definition word_before :: "char option \<Rightarrow> bool" where
  "word_before prev = (case prev of None \<Rightarrow> False | Some c \<Rightarrow> is_word c)"

definition word_after :: "pystr \<Rightarrow> bool" where
  "word_after s = (case s of [] \<Rightarrow> False | c # _ \<Rightarrow> is_word c)"

fun match_here :: "item list \<Rightarrow> char option \<Rightarrow> pystr \<Rightarrow> nat option" where
  "match_here [] prev s = Some 0"
| "match_here (One p # r) prev [] = None"
| "match_here (One p # r) prev (c # cs) =
     (if p c then map_option Suc (match_here r (Some c) cs) else None)"
| "match_here (Opt p # r) prev [] = match_here r prev []"
| "match_here (Opt p # r) prev (c # cs) =
     (if p c then (case match_here r (Some c) cs of
                     Some n \<Rightarrow> Some (Suc n)
                   | None \<Rightarrow> match_here r prev (c # cs))
      else match_here r prev (c # cs))"
| "match_here (Star p # r) prev [] = match_here r prev []"
| "match_here (Star p # r) prev (c # cs) =
     (if p c then (case match_here (Star p # r) (Some c) cs of
                     Some n \<Rightarrow> Some (Suc n)
                   | None \<Rightarrow> match_here r prev (c # cs))
      else match_here r prev (c # cs))"
| "match_here (Boundary # r) prev s =
     (if word_before prev \<noteq> word_after s then match_here r prev s else None)"

text \<open>\<open>re.search\<close>: the first position with a match, as a truth value.\<close>

fun re_search :: "item list \<Rightarrow> char option \<Rightarrow> pystr \<Rightarrow> bool" where
  "re_search pat prev [] = (match_here pat prev [] \<noteq> None)"
| "re_search pat prev (c # cs) = (match_here pat prev (c # cs) \<noteq> None \<or> re_search pat (Some c) cs)"

text \<open>
  The scan of \<open>re.findall\<close> and \<open>re.split\<close>: leftmost matches that do not overlap.
  After a match of \<open>n > 0\<close> characters the scan goes on behind it; \<open>skip\<close> counts the
  characters of the current match still to pass. An empty match (no pattern of the
  sources has one) is recorded and the scan moves one character on.
\<close>

fun findall_scan :: "item list \<Rightarrow> nat \<Rightarrow> char option \<Rightarrow> pystr \<Rightarrow> pystr list" where
  "findall_scan pat skip prev [] =
     (if skip = 0 \<and> match_here pat prev [] \<noteq> None then [[]] else [])"
| "findall_scan pat skip prev (c # cs) =
     (if 0 < skip then findall_scan pat (skip - 1) (Some c) cs
      else (case match_here pat prev (c # cs) of
              None \<Rightarrow> findall_scan pat 0 (Some c) cs
            | Some n \<Rightarrow> take n (c # cs) # findall_scan pat (n - 1) (Some c) cs))"

definition re_findall :: "item list \<Rightarrow> pystr \<Rightarrow> pystr list" where
  "re_findall pat s = findall_scan pat 0 None s"

text \<open>
  \<open>re.split\<close> for a pattern without empty matches: \<open>cur\<close> is the piece being read,
  reversed; a match closes the piece and is passed over.
\<close>

fun split_scan :: "item list \<Rightarrow> nat \<Rightarrow> pystr \<Rightarrow> char option \<Rightarrow> pystr \<Rightarrow> pystr list" where
  "split_scan pat skip cur prev [] = [rev cur]"
| "split_scan pat skip cur prev (c # cs) =
     (if 0 < skip then split_scan pat (skip - 1) cur (Some c) cs
      else (case match_here pat prev (c # cs) of
              None \<Rightarrow> split_scan pat 0 (c # cur) (Some c) cs
            | Some 0 \<Rightarrow> split_scan pat 0 (c # cur) (Some c) cs
            | Some (Suc n) \<Rightarrow> rev cur # split_scan pat n [] (Some c) cs))"

definition re_split :: "item list \<Rightarrow> pystr \<Rightarrow> pystr list" where
  "re_split pat s = split_scan pat 0 [] None s"

section \<open>classifier.py\<close>

text \<open>
  \<open>ScientificArticleClassifier.__init__\<close> stores two fixed lists: the keywords and the
  citation patterns \<open>\([A-Z][a-z]+,?\s+\d{4}\)\<close>, \<open>\[[0-9,\s-]+\]\<close> and
  \<open>et\s+al\.?,?\s+\d{4}\<close>.
\<close>

definition scientific_keywords :: "pystr list" where
  "scientific_keywords =
    [''abstract'', ''resumo'', ''introduction'', ''introdu'' @ [CHR 0xE7] @ [CHR 0xE3] @ ''o'',
     ''methodology'', ''metodologia'', ''results'', ''resultados'',
     ''discussion'', ''discuss'' @ [CHR 0xE3] @ ''o'', ''conclusion'', ''conclus'' @ [CHR 0xE3] @ ''o'',
     ''references'', ''refer'' @ [CHR 0xEA] @ ''ncias'', ''bibliografia'',
     ''hypothesis'', ''hip'' @ [CHR 0xF3] @ ''tese'', ''experiment'', ''experimento'',
     ''analysis'', ''an'' @ [CHR 0xE1] @ ''lise'', ''study'', ''estudo'',
     ''research'', ''pesquisa'', ''method'', ''m'' @ [CHR 0xE9] @ ''todo'',
     ''et al'', ''figure'', ''figura'', ''table'', ''tabela'',
     ''doi'', ''issn'', ''journal'', ''revista'']"

definition in_range :: "char \<Rightarrow> char \<Rightarrow> char \<Rightarrow> bool" where
  "in_range lo hi c = ((of_char lo :: nat) \<le> of_char c \<and> (of_char c :: nat) \<le> of_char hi)"

definition citation_author_year :: "item list" where
  "citation_author_year =
     lits ''('' @ [One (in_range CHR ''A'' CHR ''Z'')] @ plus (in_range CHR ''a'' CHR ''z'')
     @ [Opt (lit CHR '','')] @ plus is_space @ times 4 is_digit @ lits '')''"

definition citation_bracket :: "item list" where
  "citation_bracket =
     lits ''['' @ plus (\<lambda>c. in_range CHR ''0'' CHR ''9'' c \<or> c = CHR '','' \<or> is_space c \<or> c = CHR ''-'')
     @ lits '']''"

definition citation_et_al :: "item list" where
  "citation_et_al =
     lits ''et'' @ plus is_space @ lits ''al'' @ [Opt (lit CHR ''.''), Opt (lit CHR '','')]
     @ plus is_space @ times 4 is_digit"

definition citation_patterns :: "item list list" where
  "citation_patterns = [citation_author_year, citation_bracket, citation_et_al]"

text \<open>The patterns \<open>doi:\s*10\.\d+\<close> and \<open>issn[:\s]+\d{4}-?\d{3}[\dxX]\<close>.\<close>

definition doi_pattern :: "item list" where
  "doi_pattern = lits ''doi:'' @ [Star is_space] @ lits ''10.'' @ plus is_digit"

definition issn_pattern :: "item list" where
  "issn_pattern =
     lits ''issn'' @ plus (\<lambda>c. c = CHR '':'' \<or> is_space c) @ times 4 is_digit
     @ [Opt (lit CHR ''-'')] @ times 3 is_digit
     @ [One (\<lambda>c. is_digit c \<or> c = CHR ''x'' \<or> c = CHR ''X'')]"

definition sections :: "pystr list" where
  "sections = [''abstract'', ''introduction'', ''method'', ''result'', ''conclusion'', ''reference'']"

record feature_set =
  keyword_count :: nat
  citation_count :: nat
  has_doi :: bool
  has_issn :: bool
  section_count :: nat

definition extract_features :: "pystr \<Rightarrow> feature_set" where
  "extract_features text =
    (let text_lower = py_lower text;
         kc = length (filter (\<lambda>kw. py_in kw text_lower) scientific_keywords);
         cc = sum_list (map (\<lambda>pattern. length (re_findall pattern text)) citation_patterns);
         doi = re_search doi_pattern None text_lower;
         issn = re_search issn_pattern None text_lower;
         sc = length (filter (\<lambda>section. py_in section text_lower) sections)
     in \<lparr>keyword_count = kc, citation_count = cc, has_doi = doi, has_issn = issn,
         section_count = sc\<rparr>)"

text \<open>
  \<open>calculate_confidence_score\<close>: the score starts at \<open>0.0\<close> and is updated by five
  statements in turn; the two bonuses are added only when their flag is set. Each
  \<open>count * weight\<close> converts the count to a float first.
\<close>

definition calculate_confidence_score :: "feature_set \<Rightarrow> py_error + pyfloat" where
  "calculate_confidence_score features =
    (let score0 = rnd 0 in
     case int_times_float (keyword_count features) (rnd (15 / 1000)) of
       Inl e \<Rightarrow> Inl e
     | Inr kw \<Rightarrow>
    (let score1 = fadd score0 (min kw (rnd (3 / 10))) in
     case int_times_float (citation_count features) (rnd (2 / 100)) of
       Inl e \<Rightarrow> Inl e
     | Inr cit \<Rightarrow>
    (let score2 = fadd score1 (min cit (rnd (3 / 10)));
         score3 = (if has_doi features then fadd score2 (rnd (1 / 10)) else score2);
         score4 = (if has_issn features then fadd score3 (rnd (1 / 10)) else score3) in
     case int_times_float (section_count features) (rnd (4 / 100)) of
       Inl e \<Rightarrow> Inl e
     | Inr sec \<Rightarrow>
    (let score5 = fadd score4 (min sec (rnd (2 / 10)))
     in Inr (min score5 (rnd 1))))))"

text \<open>
  The verdict of \<open>classify\<close>. Its \<open>features\<close> entry is the empty dictionary for a
  short text (\<open>None\<close> here) and the extracted features otherwise.
\<close>

record verdict =
  is_scientific :: bool
  confidence :: pyfloat
  reason :: pystr
  features :: "feature_set option"

definition classify :: "pystr option \<Rightarrow> py_error + verdict" where
  "classify text =
    (case text of
       None \<Rightarrow> Inr \<lparr>is_scientific = False, confidence = rnd 0,
                     reason = ''Texto muito curto'', features = None\<rparr>
     | Some t \<Rightarrow>
        if t = [] \<or> length (py_strip t) < 100
        then Inr \<lparr>is_scientific = False, confidence = rnd 0,
                  reason = ''Texto muito curto'', features = None\<rparr>
        else (let fs = extract_features t in
              case calculate_confidence_score fs of
                Inl e \<Rightarrow> Inl e
              | Inr conf \<Rightarrow>
                 (let sci = (rnd (3 / 10) \<le> conf)
                  in Inr \<lparr>is_scientific = sci,
                          confidence = conf,
                          reason = (if sci then ''Artigo Cient'' @ [CHR 0xED] @ ''fico''
                                    else ''N'' @ [CHR 0xE3] @ ''o '' @ [CHR 0xE9] @ '' artigo cient''
                                         @ [CHR 0xED] @ ''fico''),
                          features = Some fs\<rparr>)))"

section \<open>text\_analyzer.py\<close>

text \<open>
  \<open>TextAnalyzer.__init__\<close> builds the stop word set: the union of the Portuguese and
  English lists of the NLTK corpus (given here, as they are data outside the
  sources), or the empty set when loading them fails, and then sixteen more words.
\<close>

record analyzer =
  stop_words :: "pystr set"

definition extra_stop_words :: "pystr list" where
  "extra_stop_words =
     [''et'', ''al'', ''fig'', ''figure'', ''table'', ''doi'', ''http'', ''https'',
      ''www'', ''com'', ''org'', ''edu'', ''vol'', ''pp'', ''eds'', ''ed'']"

definition TextAnalyzer :: "(pystr list \<times> pystr list) option \<Rightarrow> analyzer" where
  "TextAnalyzer corpus =
     (let loaded = (case corpus of
                      None \<Rightarrow> {}
                    | Some (portuguese, english) \<Rightarrow> set portuguese \<union> set english)
      in \<lparr>stop_words = loaded \<union> set extra_stop_words\<rparr>)"

text \<open>The pattern \<open>\n\s*\n+\<close> of \<open>detect_paragraphs\<close>.\<close>

definition paragraph_break :: "item list" where
  "paragraph_break = [One (lit CHR 0x0A), Star is_space] @ plus (lit CHR 0x0A)"

text \<open>The loop of \<open>detect_paragraphs\<close> over the pieces, appending to \<open>cleaned\<close>.\<close>

fun clean_paragraphs :: "pystr list \<Rightarrow> pystr list \<Rightarrow> pystr list" where
  "clean_paragraphs cleaned [] = cleaned"
| "clean_paragraphs cleaned (para # rest) =
     (let para1 = py_join '' '' (py_split para);
          para2 = py_strip para1
      in if 3 \<le> length (py_split para2) then clean_paragraphs (cleaned @ [para2]) rest
         else clean_paragraphs cleaned rest)"

definition detect_paragraphs :: "pystr \<Rightarrow> pystr list" where
  "detect_paragraphs text =
     (if text = [] then []
      else let text1 = py_strip text;
               paragraphs = re_split paragraph_break text1
           in clean_paragraphs [] paragraphs)"

definition count_paragraphs :: "pystr list \<Rightarrow> nat" where
  "count_paragraphs paragraphs = length paragraphs"

definition extract_body_text :: "pystr list \<Rightarrow> pystr" where
  "extract_body_text paragraphs = py_join [CHR 0x0A, CHR 0x0A] paragraphs"

text \<open>
  The pattern of \<open>count_words\<close> and \<open>tokenize_words\<close>: a word boundary, one or
  more letters of the class (a to z, A to Z and the listed accented letters), a
  word boundary.
\<close>

definition accented_letters :: "pystr" where
  "accented_letters =
     [CHR 0xE1, CHR 0xE9, CHR 0xED, CHR 0xF3, CHR 0xFA, CHR 0xE0, CHR 0xE8, CHR 0xEC, CHR 0xF2,
      CHR 0xF9, CHR 0xE2, CHR 0xEA, CHR 0xEE, CHR 0xF4, CHR 0xFB, CHR 0xE3, CHR 0xF5, CHR 0xE7,
      CHR 0xC1, CHR 0xC9, CHR 0xCD, CHR 0xD3, CHR 0xDA, CHR 0xC0, CHR 0xC8, CHR 0xCC, CHR 0xD2,
      CHR 0xD9, CHR 0xC2, CHR 0xCA, CHR 0xCE, CHR 0xD4, CHR 0xDB, CHR 0xC3, CHR 0xD5, CHR 0xC7]"

definition is_letter :: "char \<Rightarrow> bool" where
  "is_letter c = (in_range CHR ''a'' CHR ''z'' c \<or> in_range CHR ''A'' CHR ''Z'' c
                  \<or> c \<in> set accented_letters)"

definition word_pattern :: "item list" where
  "word_pattern = [Boundary] @ plus is_letter @ [Boundary]"

definition count_words :: "pystr \<Rightarrow> nat" where
  "count_words text = (if text = [] then 0 else length (re_findall word_pattern (py_lower text)))"

definition tokenize_words :: "pystr \<Rightarrow> pystr list" where
  "tokenize_words text =
     (if text = [] then []
      else let text_lower = py_lower text in re_findall word_pattern text_lower)"

definition remove_stopwords :: "analyzer \<Rightarrow> pystr list \<Rightarrow> pystr list" where
  "remove_stopwords self words = filter (\<lambda>word. word \<notin> stop_words self \<and> 2 < length word) words"

text \<open>
  \<open>collections.Counter\<close> keeps one count per word, in the order in which the words
  first appear. \<open>most_common(n)\<close> returns \<open>heapq.nlargest(n, items, key=count)\<close>,
  which the library documents as \<open>sorted(items, key=count, reverse=True)[:n]\<close>: a
  stable sort by descending count, cut after \<open>n\<close> entries (no entry when \<open>n \<le> 0\<close>).
\<close>

fun counter_add :: "('k \<times> nat) list \<Rightarrow> 'k \<Rightarrow> ('k \<times> nat) list" where
  "counter_add [] w = [(w, 1)]"
| "counter_add ((k, c) # rest) w = (if k = w then (k, Suc c) # rest else (k, c) # counter_add rest w)"

definition Counter :: "'k list \<Rightarrow> ('k \<times> nat) list" where
  "Counter ws = foldl counter_add [] ws"

definition most_common :: "('k \<times> nat) list \<Rightarrow> int \<Rightarrow> ('k \<times> nat) list" where
  "most_common items n = take (nat n) (sort_key (\<lambda>(w, c). - int c) items)"

definition calculate_word_frequency ::
  "analyzer \<Rightarrow> pystr \<Rightarrow> int \<Rightarrow> bool \<Rightarrow> (pystr \<times> nat) list" where
  "calculate_word_frequency self text top_n remove_stop_words =
     (if text = [] then []
      else let words = tokenize_words text;
               words1 = (if remove_stop_words then remove_stopwords self words else words);
               word_freq = Counter words1
           in most_common word_freq top_n)"

text \<open>The call with the default arguments \<open>top_n=10\<close> and \<open>remove_stop_words=True\<close>.\<close>

definition calculate_word_frequency_defaults :: "analyzer \<Rightarrow> pystr \<Rightarrow> (pystr \<times> nat) list" where
  "calculate_word_frequency_defaults self text = calculate_word_frequency self text 10 True"

section \<open>compliance\_validator.py\<close>

text \<open>
  \<open>ComplianceValidator.__init__\<close> stores the flag and the two thresholds;
  \<open>check_compliance\<close> reads two keys of the analysis dictionary with
  \<open>dict.get(key, 0)\<close>. The dictionary is a map from keys to the integer counts it
  holds; the \<open>requirements\<close> dictionary of the result keeps its insertion order.
\<close>

record validator =
  use_llm :: bool
  min_words :: int
  min_paragraphs :: int

definition ComplianceValidator :: "bool \<Rightarrow> validator" where
  "ComplianceValidator llm = \<lparr>use_llm = llm, min_words = 2000, min_paragraphs = 5\<rparr>"

record compliance =
  is_compliant :: bool
  word_count :: int
  paragraph_count :: int
  requirements :: "(pystr \<times> int) list"
  reasons :: "pystr list"

definition dict_get :: "('k \<rightharpoonup> 'v) \<Rightarrow> 'k \<Rightarrow> 'v \<Rightarrow> 'v" where
  "dict_get d k dflt = (case d k of None \<Rightarrow> dflt | Some v \<Rightarrow> v)"

definition words_reason :: "int \<Rightarrow> int \<Rightarrow> pystr" where
  "words_reason wc mw = ''Palavras: '' @ str_int wc @ '' (m'' @ [CHR 0xED] @ ''nimo: '' @ str_int mw @ '')''"

definition paragraphs_reason :: "int \<Rightarrow> int \<Rightarrow> pystr" where
  "paragraphs_reason pc mp =
     ''Par'' @ [CHR 0xE1] @ ''grafos: '' @ str_int pc @ '' (m'' @ [CHR 0xED] @ ''nimo: '' @ str_int mp @ '')''"

definition check_compliance :: "validator \<Rightarrow> (pystr \<rightharpoonup> int) \<Rightarrow> compliance" where
  "check_compliance self analysis =
    (let wc = dict_get analysis ''word_count'' 0;
         pc = dict_get analysis ''paragraph_count'' 0;
         compliant = (wc > min_words self \<and> pc > min_paragraphs self);
         reasons0 = [];
         reasons1 = (if wc \<le> min_words self then reasons0 @ [words_reason wc (min_words self)] else reasons0);
         reasons2 = (if pc \<le> min_paragraphs self
                     then reasons1 @ [paragraphs_reason pc (min_paragraphs self)] else reasons1)
     in \<lparr>is_compliant = compliant,
         word_count = wc,
         paragraph_count = pc,
         requirements = [(''min_words'', min_words self), (''min_paragraphs'', min_paragraphs self)],
         reasons = (if \<not> compliant then reasons2 else [])\<rparr>)"

section \<open>The scoring rule in the words of the specification\<close>

text \<open>
  The five contributions and their clamped sum, each operation in floating point and
  in the order given: the minimum of count times weight and the cap for keywords,
  citations and sections, and a bonus of \<open>0.10\<close> or \<open>0\<close> for each flag.
  \<open>fits_float n\<close> says that the count \<open>n\<close> converts to a float: it is below
  \<open>2^1024 - 2^970\<close>, as every count taken from a text is.
\<close>

definition fits_float :: "nat \<Rightarrow> bool" where
  "fits_float n = (n < 2 ^ 1024 - 2 ^ 970)"

definition keyword_contribution :: "feature_set \<Rightarrow> pyfloat" where
  "keyword_contribution f = min (fmul (rnd (of_nat (keyword_count f))) (rnd (15 / 1000))) (rnd (3 / 10))"

definition citation_contribution :: "feature_set \<Rightarrow> pyfloat" where
  "citation_contribution f = min (fmul (rnd (of_nat (citation_count f))) (rnd (2 / 100))) (rnd (3 / 10))"

definition doi_bonus :: "feature_set \<Rightarrow> pyfloat" where
  "doi_bonus f = (if has_doi f then rnd (1 / 10) else rnd 0)"

definition issn_bonus :: "feature_set \<Rightarrow> pyfloat" where
  "issn_bonus f = (if has_issn f then rnd (1 / 10) else rnd 0)"

definition section_contribution :: "feature_set \<Rightarrow> pyfloat" where
  "section_contribution f = min (fmul (rnd (of_nat (section_count f))) (rnd (4 / 100))) (rnd (2 / 10))"

definition weighted_total :: "feature_set \<Rightarrow> pyfloat" where
  "weighted_total f =
     fadd (fadd (fadd (fadd (keyword_contribution f) (citation_contribution f)) (doi_bonus f))
                (issn_bonus f))
          (section_contribution f)"

definition clamped_total :: "feature_set \<Rightarrow> pyfloat" where
  "clamped_total f = min (weighted_total f) (rnd 1)"

text \<open>
  The length of a Python string is at most \<open>sys.maxsize\<close>, \<open>2^63 - 1\<close> on a 64 bit
  interpreter.
\<close>

definition py_ssize_t_max :: nat where
  "py_ssize_t_max = 2 ^ 63 - 1"

text \<open>The verdict of the length gate, as \<open>classify\<close> builds it.\<close>

definition too_short_verdict :: verdict where
  "too_short_verdict =
     \<lparr>is_scientific = False, confidence = 0, reason = ''Texto muito curto'', features = None\<rparr>"

section \<open>The frequency ranking in the words of the specification\<close>

text \<open>
  The remaining tokens are the tokens of the text, without the stop words and the
  short words when removal is on. \<open>first_index ws w\<close> is the position at which \<open>w\<close>
  first appears in the token stream, and one entry ranks before another when its
  count is higher, or the counts are equal and its word appears first.
\<close>

definition remaining_tokens :: "analyzer \<Rightarrow> pystr \<Rightarrow> bool \<Rightarrow> pystr list" where
  "remaining_tokens self text remove_stop_words =
     (if remove_stop_words then remove_stopwords self (tokenize_words text) else tokenize_words text)"

definition first_index :: "'a list \<Rightarrow> 'a \<Rightarrow> nat" where
  "first_index ws w = length (takeWhile (\<lambda>x. x \<noteq> w) ws)"

definition ranks_before :: "'a list \<Rightarrow> 'a \<times> nat \<Rightarrow> 'a \<times> nat \<Rightarrow> bool" where
  "ranks_before ws a b =
     (snd b < snd a \<or> (snd a = snd b \<and> first_index ws (fst a) < first_index ws (fst b)))"

text \<open>The full ranking of a token stream: every distinct token with its count.\<close>

definition ranking :: "'a list \<Rightarrow> ('a \<times> nat) list" where
  "ranking ws = most_common (Counter ws) (int (length ws))"

section \<open>What a pattern matches\<close>

text \<open>
  \<open>matches pat prev s\<close>: some prefix of \<open>s\<close> belongs to the pattern, read as a
  regular expression (\<open>prev\<close> is the character before \<open>s\<close>). \<open>after prev w\<close> is the
  character before the position reached by reading \<open>w\<close>.
\<close>

fun matches :: "item list \<Rightarrow> char option \<Rightarrow> pystr \<Rightarrow> bool" where
  "matches [] prev s = True"
| "matches (One p # r) prev [] = False"
| "matches (One p # r) prev (c # cs) = (p c \<and> matches r (Some c) cs)"
| "matches (Opt p # r) prev [] = matches r prev []"
| "matches (Opt p # r) prev (c # cs) = ((p c \<and> matches r (Some c) cs) \<or> matches r prev (c # cs))"
| "matches (Star p # r) prev [] = matches r prev []"
| "matches (Star p # r) prev (c # cs) =
     ((p c \<and> matches (Star p # r) (Some c) cs) \<or> matches r prev (c # cs))"
| "matches (Boundary # r) prev s = (word_before prev \<noteq> word_after s \<and> matches r prev s)"

definition after :: "char option \<Rightarrow> pystr \<Rightarrow> char option" where
  "after prev w = (if w = [] then prev else Some (last w))"

text \<open>
  The shapes that the two detections look for. A DOI: \<open>doi:\<close>, any white space,
  \<open>10.\<close> and at least one digit. An ISSN: \<open>issn\<close>, at least one colon or white
  space character, four digits, an optional hyphen, three digits and a digit or
  \<open>x\<close> or \<open>X\<close>. \<open>issn_form_optional_separator\<close> is the ISSN shape with the colon or
  white space optional. \<open>contains_form\<close>: some part of the text starts with the shape.
\<close>

definition doi_form :: "pystr \<Rightarrow> bool" where
  "doi_form s = (\<exists>w ds rest. s = ''doi:'' @ w @ ''10.'' @ ds @ rest
                   \<and> list_all is_space w \<and> ds \<noteq> [] \<and> list_all is_digit ds)"

definition issn_tail :: "pystr \<Rightarrow> bool" where
  "issn_tail s = (\<exists>d4 h d3 c rest. s = d4 @ h @ d3 @ c # rest
                   \<and> length d4 = 4 \<and> list_all is_digit d4 \<and> (h = [] \<or> h = ''-'')
                   \<and> length d3 = 3 \<and> list_all is_digit d3
                   \<and> (is_digit c \<or> c = CHR ''x'' \<or> c = CHR ''X''))"

definition issn_form :: "pystr \<Rightarrow> bool" where
  "issn_form s = (\<exists>sep tail. s = ''issn'' @ sep @ tail \<and> sep \<noteq> []
                   \<and> list_all (\<lambda>c. c = CHR '':'' \<or> is_space c) sep \<and> issn_tail tail)"

definition issn_form_optional_separator :: "pystr \<Rightarrow> bool" where
  "issn_form_optional_separator s =
     (\<exists>sep tail. s = ''issn'' @ sep @ tail
                   \<and> list_all (\<lambda>c. c = CHR '':'' \<or> is_space c) sep \<and> issn_tail tail)"

definition contains_form :: "(pystr \<Rightarrow> bool) \<Rightarrow> pystr \<Rightarrow> bool" where
  "contains_form form t = (\<exists>pre s. t = pre @ s \<and> form s)"

section \<open>Paragraph segmentation in the words of the specification\<close>

text \<open>
  A paragraph separator is a newline, optional white space and one or more further
  newlines. \<open>gap cs\<close> looks at the text after a newline: it is the length of the
  longest stretch of white space at the start of \<open>cs\<close> that ends in a newline, if
  there is one. \<open>first_break s\<close> is the position and the length of the first
  separator of \<open>s\<close>, and \<open>blocks s\<close> the pieces of \<open>s\<close> between its separators.
\<close>

definition newline :: char where
  "newline = CHR 0x0A"

fun gap :: "pystr \<Rightarrow> nat option" where
  "gap [] = None"
| "gap (c # cs) =
     (if is_space c
      then (case gap cs of Some n \<Rightarrow> Some (Suc n) | None \<Rightarrow> if c = newline then Some 1 else None)
      else None)"

fun first_break :: "pystr \<Rightarrow> (nat \<times> nat) option" where
  "first_break [] = None"
| "first_break (c # cs) =
     (case (if c = newline then gap cs else None) of
        Some n \<Rightarrow> Some (0, Suc n)
      | None \<Rightarrow> map_option (\<lambda>(i, n). (Suc i, n)) (first_break cs))"

lemma first_break_bounds:
  "first_break s = Some (i, n) \<Longrightarrow> 0 < n \<and> i < length s"
proof (induction s arbitrary: i n)
  case Nil
  then show ?case by simp
next
  case (Cons c cs)
  then show ?case by (auto split: option.splits if_splits)
qed

function blocks :: "pystr \<Rightarrow> pystr list" where
  "blocks s = (case first_break s of
                 None \<Rightarrow> [s]
               | Some (i, n) \<Rightarrow> take i s # blocks (drop (i + n) s))"
  by pat_completeness auto
termination
proof (relation "measure length")
  show "wf (measure length)" by simp
next
  fix s :: pystr and x2 x y
  assume "first_break s = Some x2" "(x, y) = x2"
  then have "first_break s = Some (x, y)" by simp
  from first_break_bounds [OF this] have "length s - (x + y) < length s" by arith
  then show "(drop (x + y) s, s) \<in> measure length" by simp
qed

declare blocks.simps [simp del]

text \<open>
  Each block is collapsed to its tokens joined by single spaces, and blocks with fewer
  than three tokens are left out.
\<close>

definition collapse :: "pystr \<Rightarrow> pystr" where
  "collapse b = py_join '' '' (py_split b)"

definition spec_paragraphs :: "pystr \<Rightarrow> pystr list" where
  "spec_paragraphs text =
     map collapse (filter (\<lambda>b. 3 \<le> length (py_split b)) (blocks (py_strip text)))"

text \<open>
  A text has a separator when a newline, white space and a newline occur in it in a
  row. A token is a non-empty string without white space.
\<close>

definition has_separator :: "pystr \<Rightarrow> bool" where
  "has_separator s = (\<exists>a w b. s = a @ [newline] @ w @ [newline] @ b \<and> list_all is_space w)"

definition is_token :: "pystr \<Rightarrow> bool" where
  "is_token w = (w \<noteq> [] \<and> list_all (\<lambda>c. \<not> is_space c) w)"

section \<open>Sample texts\<close>

text \<open>
  A text of 128 characters with seven keywords, three citations, a DOI, an ISSN and
  two section names, and a text of 122 characters with none of them.
\<close>

definition sample_article :: pystr where
  "sample_article = ''Abstract. This study presents results [1] and a discussion (Smith, 2020); see Silva et al. 2019. doi: 10.1000/182 ISSN 1234-5678''"

definition sample_prose :: pystr where
  "sample_prose = ''The quick brown fox jumps over the lazy dog while the band plays on and on, far away from any laboratory or library shelf.''"

text \<open>
  Three texts of two lines of words: one with a single newline between the lines,
  one with a blank line between them, and one with a blank line after a line of only
  two words.
\<close>

definition sample_single_newline :: pystr where
  "sample_single_newline = ''one two three'' @ [CHR 0x0A] @ ''four five six''"

definition sample_blank_line :: pystr where
  "sample_blank_line = ''one two three'' @ [CHR 0x0A, CHR 0x0A] @ ''four five six''"

definition sample_short_block :: pystr where
  "sample_short_block = ''one two'' @ [CHR 0x0A, CHR 0x0A] @ ''three four five''"

section \<open>Compliance: thresholds and reasons\<close>

lemma dict_get_upd_same: "dict_get (d(k \<mapsto> v)) k dflt = v"
  by (simp add: dict_get_def)

lemma dict_get_upd_other: "k \<noteq> k' \<Longrightarrow> dict_get (d(k' \<mapsto> v)) k dflt = dict_get d k dflt"
  by (simp add: dict_get_def)

lemma dict_get_absent: "d k = None \<Longrightarrow> dict_get d k dflt = dflt"
  by (simp add: dict_get_def)

lemma dict_get_counts:
  "dict_get (d(''word_count'' \<mapsto> wc, ''paragraph_count'' \<mapsto> pc)) ''word_count'' 0 = wc"
  "dict_get (d(''word_count'' \<mapsto> wc, ''paragraph_count'' \<mapsto> pc)) ''paragraph_count'' 0 = pc"
  by (simp_all add: dict_get_def)

text \<open>
  C4. For every word count and paragraph count (stored under their keys in any
  analysis dictionary) the check is compliant exactly when the word count exceeds 2000
  and the paragraph count exceeds 5; the reasons are empty exactly when compliant, and
  otherwise hold the word message (if the word count is at most 2000) followed by the
  paragraph message (if the paragraph count is at most 5): zero, one or two reasons in
  that order.
\<close>

theorem check_compliance_thresholds:
  "is_compliant (check_compliance (ComplianceValidator llm)
       (d(''word_count'' \<mapsto> wc, ''paragraph_count'' \<mapsto> pc))) = (wc > 2000 \<and> pc > 5)
   \<and> (reasons (check_compliance (ComplianceValidator llm)
       (d(''word_count'' \<mapsto> wc, ''paragraph_count'' \<mapsto> pc))) = [])
        = is_compliant (check_compliance (ComplianceValidator llm)
            (d(''word_count'' \<mapsto> wc, ''paragraph_count'' \<mapsto> pc)))
   \<and> reasons (check_compliance (ComplianceValidator llm)
       (d(''word_count'' \<mapsto> wc, ''paragraph_count'' \<mapsto> pc)))
        = (if wc \<le> 2000 then [words_reason wc 2000] else [])
          @ (if pc \<le> 5 then [paragraphs_reason pc 5] else [])
   \<and> length (reasons (check_compliance (ComplianceValidator llm)
       (d(''word_count'' \<mapsto> wc, ''paragraph_count'' \<mapsto> pc)))) \<le> 2"
  by (auto simp: check_compliance_def ComplianceValidator_def Let_def dict_get_counts)

text \<open>The four cases listed with the property, with the messages written out.\<close>

lemma str_int_samples:
  "str_int 2000 = ''2000''" "str_int 2001 = ''2001''" "str_int 5 = ''5''" "str_int 6 = ''6''"
  "str_int 0 = ''0''" "str_int (- 12) = ''-12''"
  by (simp_all add: str_int_def digit_char_def)

lemma check_compliance_examples:
  "is_compliant (check_compliance (ComplianceValidator False)
      [''word_count'' \<mapsto> 2001, ''paragraph_count'' \<mapsto> 6])"
  "reasons (check_compliance (ComplianceValidator False)
      [''word_count'' \<mapsto> 2001, ''paragraph_count'' \<mapsto> 6]) = []"
  "reasons (check_compliance (ComplianceValidator False)
      [''word_count'' \<mapsto> 2000, ''paragraph_count'' \<mapsto> 6])
     = [''Palavras: 2000 (m'' @ [CHR 0xED] @ ''nimo: 2000)'']"
  "reasons (check_compliance (ComplianceValidator False)
      [''word_count'' \<mapsto> 2001, ''paragraph_count'' \<mapsto> 5])
     = [''Par'' @ [CHR 0xE1] @ ''grafos: 5 (m'' @ [CHR 0xED] @ ''nimo: 5)'']"
  "reasons (check_compliance (ComplianceValidator False)
      [''word_count'' \<mapsto> 2000, ''paragraph_count'' \<mapsto> 5])
     = [''Palavras: 2000 (m'' @ [CHR 0xED] @ ''nimo: 2000)'',
        ''Par'' @ [CHR 0xE1] @ ''grafos: 5 (m'' @ [CHR 0xED] @ ''nimo: 5)'']"
  by (simp_all add: check_compliance_def ComplianceValidator_def Let_def dict_get_def
        words_reason_def paragraphs_reason_def str_int_samples)

text \<open>
  C10. A key that is absent from the analysis dictionary is read as 0: the check
  returns the verdict it returns for the dictionary holding 0 under that key, it does
  not fail, and the verdict is not compliant. With both keys absent the reasons are the
  word message followed by the paragraph message, both for the count 0.
\<close>

theorem check_compliance_missing_fields:
  "(d ''word_count'' = None \<longrightarrow>
      check_compliance (ComplianceValidator llm) d
        = check_compliance (ComplianceValidator llm) (d(''word_count'' \<mapsto> 0))
      \<and> word_count (check_compliance (ComplianceValidator llm) d) = 0
      \<and> \<not> is_compliant (check_compliance (ComplianceValidator llm) d))
   \<and> (d ''paragraph_count'' = None \<longrightarrow>
      check_compliance (ComplianceValidator llm) d
        = check_compliance (ComplianceValidator llm) (d(''paragraph_count'' \<mapsto> 0))
      \<and> paragraph_count (check_compliance (ComplianceValidator llm) d) = 0
      \<and> \<not> is_compliant (check_compliance (ComplianceValidator llm) d))
   \<and> (d ''word_count'' = None \<and> d ''paragraph_count'' = None \<longrightarrow>
      reasons (check_compliance (ComplianceValidator llm) d)
        = [words_reason 0 2000, paragraphs_reason 0 5])"
  by (auto simp: check_compliance_def ComplianceValidator_def Let_def dict_get_def)

theorem check_compliance_missing_fields_witness:
  "Map.empty ''word_count'' = (None :: int option)
   \<and> Map.empty ''paragraph_count'' = (None :: int option)
   \<and> \<not> is_compliant (check_compliance (ComplianceValidator False) Map.empty)
   \<and> word_count (check_compliance (ComplianceValidator False) Map.empty) = 0
   \<and> paragraph_count (check_compliance (ComplianceValidator False) Map.empty) = 0
   \<and> reasons (check_compliance (ComplianceValidator False) Map.empty)
       = [''Palavras: 0 (m'' @ [CHR 0xED] @ ''nimo: 2000)'',
          ''Par'' @ [CHR 0xE1] @ ''grafos: 0 (m'' @ [CHR 0xED] @ ''nimo: 5)'']"
proof -
  have absent: "Map.empty ''word_count'' = (None :: int option)"
    "Map.empty ''paragraph_count'' = (None :: int option)"
    by simp_all
  have msgs: "words_reason 0 2000 = ''Palavras: 0 (m'' @ [CHR 0xED] @ ''nimo: 2000)''"
    "paragraphs_reason 0 5 = ''Par'' @ [CHR 0xE1] @ ''grafos: 0 (m'' @ [CHR 0xED] @ ''nimo: 5)''"
    by (simp_all add: words_reason_def paragraphs_reason_def str_int_samples)
  note inst = check_compliance_missing_fields [of Map.empty False]
  from inst absent have w: "word_count (check_compliance (ComplianceValidator False) Map.empty) = 0"
    and nc: "\<not> is_compliant (check_compliance (ComplianceValidator False) Map.empty)"
    by blast+
  from inst absent have p: "paragraph_count (check_compliance (ComplianceValidator False) Map.empty) = 0"
    by blast
  from inst absent have r: "reasons (check_compliance (ComplianceValidator False) Map.empty)
      = [words_reason 0 2000, paragraphs_reason 0 5]"
    by blast
  show ?thesis
    unfolding r msgs using absent w nc p by simp
qed

section \<open>Rounding to binary64\<close>

declare bitlen.simps [simp del]

lemma bitlen_bounds: "0 < n \<Longrightarrow> 2 ^ (bitlen n - 1) \<le> n \<and> n < 2 ^ bitlen n"
proof (induction n rule: bitlen.induct)
  case (1 n)
  show ?case
  proof (cases "n div 2 = 0")
    case True
    with 1(2) have "n = 1" by (simp add: div_eq_0_iff)
    then show ?thesis by (simp add: bitlen.simps [of "Suc 0"] bitlen.simps [of 0])
  next
    case False
    then have pos: "0 < n div 2" by simp
    from 1(2) have n0: "n \<noteq> 0" by simp
    from 1(1) [OF n0 pos] have ih: "2 ^ (bitlen (n div 2) - 1) \<le> n div 2" "n div 2 < 2 ^ bitlen (n div 2)"
      by simp_all
    have bl: "bitlen n = Suc (bitlen (n div 2))" using n0 by (simp add: bitlen.simps [of n])
    have bpos: "0 < bitlen (n div 2)" using pos by (simp add: bitlen.simps [of "n div 2"])
    then obtain k where k: "bitlen (n div 2) = Suc k" by (cases "bitlen (n div 2)") auto
    from ih k have "2 * 2 ^ k \<le> 2 * (n div 2)" by simp
    also have "\<dots> \<le> n" by simp
    finally have lo: "2 ^ (bitlen n - 1) \<le> n" by (simp add: bl k)
    from ih(2) have "n div 2 + 1 \<le> 2 ^ bitlen (n div 2)" by simp
    then have "2 * (n div 2) + 2 \<le> 2 * 2 ^ bitlen (n div 2)" by simp
    moreover have "n \<le> 2 * (n div 2) + 1" by presburger
    ultimately have "n < 2 ^ bitlen n" by (simp add: bl)
    with lo show ?thesis by simp
  qed
qed

lemma expo_bounds:
  assumes "0 < x"
  shows "2 powi (expo x) \<le> x \<and> x < 2 powi (expo x + 1)"
proof -
  obtain a b where q: "quotient_of x = (a, b)" by (cases "quotient_of x")
  then have b: "0 < b" and x: "x = of_int a / of_int b"
    by (simp_all add: quotient_of_denom_pos quotient_of_div)
  from assms x b have a: "0 < a" by (simp add: zero_less_divide_iff)
  define la lb where "la = bitlen (nat a)" and "lb = bitlen (nat b)"
  define k where "k = int la - int lb"
  from bitlen_bounds [of "nat a"] a have A: "2 ^ (la - 1) \<le> nat a" "nat a < 2 ^ la"
    by (simp_all add: la_def)
  from bitlen_bounds [of "nat b"] b have B: "2 ^ (lb - 1) \<le> nat b" "nat b < 2 ^ lb"
    by (simp_all add: lb_def)
  have lapos: "0 < la" using A(2) a by (cases la) auto
  have lbpos: "0 < lb" using B(2) b by (cases lb) auto
  have ra: "(of_int a :: rat) = of_nat (nat a)" using a by simp
  have rb: "(of_int b :: rat) = of_nat (nat b)" using b by simp
  have a_lo: "(2::rat) ^ (la - 1) \<le> of_int a" unfolding ra using A(1)
    by (metis of_nat_le_iff of_nat_numeral of_nat_power)
  have a_hi: "of_int a < (2::rat) ^ la" unfolding ra using A(2)
    by (metis of_nat_less_iff of_nat_numeral of_nat_power)
  have b_lo: "(2::rat) ^ (lb - 1) \<le> of_int b" unfolding rb using B(1)
    by (metis of_nat_le_iff of_nat_numeral of_nat_power)
  have b_hi: "of_int b < (2::rat) ^ lb" unfolding rb using B(2)
    by (metis of_nat_less_iff of_nat_numeral of_nat_power)
  have bp: "(0::rat) < of_int b" using b by simp
  have frac: "p * s < r * q \<Longrightarrow> 0 < q \<Longrightarrow> 0 < s \<Longrightarrow> p / q < r / s" for p q r s :: rat
    by (simp add: field_simps)
  have hi: "x < 2 powi (k + 1)"
  proof -
    have "of_int a * (2::rat) ^ (lb - 1) < 2 ^ la * of_int b"
      using a_hi b_lo bp a by (intro mult_less_le_imp_less) auto
    then have "of_int a / of_int b < (2::rat) ^ la / 2 ^ (lb - 1)"
      using bp by (intro frac) auto
    moreover have "(2::rat) powi (k + 1) = 2 ^ la / 2 ^ (lb - 1)"
    proof -
      from lbpos obtain m where m: "lb = Suc m" by (cases lb) auto
      show ?thesis by (simp add: k_def m power_int_diff power_int_add)
    qed
    ultimately show ?thesis unfolding x by simp
  qed
  have lo: "2 powi (k - 1) < x"
  proof -
    have "(2::rat) ^ (la - 1) * of_int b < of_int a * 2 ^ lb"
      using a_lo b_hi a bp by (intro mult_le_less_imp_less) auto
    then have "(2::rat) ^ (la - 1) / 2 ^ lb < of_int a / of_int b"
      using bp by (intro frac) auto
    moreover have "(2::rat) powi (k - 1) = 2 ^ (la - 1) / 2 ^ lb"
    proof -
      from lapos obtain m where m: "la = Suc m" by (cases la) auto
      show ?thesis by (simp add: k_def m power_int_diff power_int_add)
    qed
    ultimately show ?thesis unfolding x by simp
  qed
  have e: "expo x = (if 2 powi k \<le> x then k else k - 1)"
    by (simp add: expo_def q k_def la_def lb_def)
  show ?thesis
  proof (cases "2 powi k \<le> x")
    case True
    with e hi show ?thesis by simp
  next
    case False
    with e lo show ?thesis by simp
  qed
qed

lemma powi2_less_imp: "(2::rat) powi a < 2 powi b \<Longrightarrow> a < b"
proof (rule ccontr)
  assume less: "(2::rat) powi a < 2 powi b" and "\<not> a < b"
  then have "b \<le> a" by simp
  then have "(2::rat) powi b \<le> 2 powi a" by (intro power_int_increasing) auto
  with less show False by simp
qed

lemma expo_unique:
  assumes "2 powi e \<le> x" "x < 2 powi (e + 1)"
  shows "expo x = e"
proof -
  have "(0::rat) < 2 powi e" by simp
  with assms have pos: "0 < x" by linarith
  from expo_bounds [OF pos] have b: "2 powi (expo x) \<le> x" "x < 2 powi (expo x + 1)" by simp_all
  from b(1) assms(2) have "(2::rat) powi (expo x) < 2 powi (e + 1)" by linarith
  then have "expo x < e + 1" by (rule powi2_less_imp)
  moreover from assms(1) b(2) have "(2::rat) powi e < 2 powi (expo x + 1)" by linarith
  then have "e < expo x + 1" by (rule powi2_less_imp)
  ultimately show ?thesis by simp
qed

lemma round_half_even_of_int: "round_half_even (of_int n) = n"
  by (simp add: round_half_even_def)

lemma round_half_even_near:
  "of_int (round_half_even q) \<le> q + 1 / 2 \<and> q - 1 / 2 \<le> of_int (round_half_even q)"
proof -
  have f: "of_int \<lfloor>q\<rfloor> \<le> q" "q < of_int \<lfloor>q\<rfloor> + 1" by linarith+
  consider "q - of_int \<lfloor>q\<rfloor> < 1 / 2" | "1 / 2 < q - of_int \<lfloor>q\<rfloor>"
    | "q - of_int \<lfloor>q\<rfloor> = 1 / 2" by linarith
  then show ?thesis
  proof cases
    case 1
    then have e: "round_half_even q = \<lfloor>q\<rfloor>" by (simp add: round_half_even_def)
    show ?thesis unfolding e using f 1 by linarith
  next
    case 2
    then have e: "round_half_even q = \<lfloor>q\<rfloor> + 1" by (simp add: round_half_even_def)
    show ?thesis unfolding e of_int_add of_int_1 using f 2 by linarith
  next
    case 3
    then have "round_half_even q = \<lfloor>q\<rfloor> \<or> round_half_even q = \<lfloor>q\<rfloor> + 1"
      by (simp add: round_half_even_def Let_def)
    then show ?thesis
    proof
      assume e: "round_half_even q = \<lfloor>q\<rfloor>"
      show ?thesis unfolding e using f 3 by linarith
    next
      assume e: "round_half_even q = \<lfloor>q\<rfloor> + 1"
      show ?thesis unfolding e of_int_add of_int_1 using f 3 by linarith
    qed
  qed
qed

lemma round_half_even_eqI:
  assumes "\<bar>q - of_int m\<bar> < 1 / 2"
  shows "round_half_even q = m"
proof -
  from round_half_even_near [of q] assms
  have "\<bar>(of_int (round_half_even q) :: rat) - of_int m\<bar> < 1" by linarith
  then have "\<bar>of_int (round_half_even q - m) :: rat\<bar> < 1" by simp
  then have "\<bar>round_half_even q - m\<bar> < 1"
    by (metis of_int_abs of_int_less_1_iff)
  then show ?thesis by simp
qed

lemma round_half_even_tie:
  "round_half_even (of_int m + 1 / 2) = (if even m then m else m + 1)"
proof -
  have "\<lfloor>(of_int m :: rat) + 1 / 2\<rfloor> = m" by linarith
  then show ?thesis by (simp add: round_half_even_def)
qed

lemma round_half_even_mono:
  assumes "q \<le> q'"
  shows "round_half_even q \<le> round_half_even q'"
proof (cases "\<lfloor>q\<rfloor> = \<lfloor>q'\<rfloor>")
  case True
  with assms show ?thesis
    by (auto simp: round_half_even_def Let_def)
next
  case False
  with assms have "\<lfloor>q\<rfloor> < \<lfloor>q'\<rfloor>"
    using floor_mono [of q q'] by linarith
  moreover have "round_half_even q \<le> \<lfloor>q\<rfloor> + 1"
    by (auto simp: round_half_even_def Let_def)
  moreover have "\<lfloor>q'\<rfloor> \<le> round_half_even q'"
    by (auto simp: round_half_even_def Let_def)
  ultimately show ?thesis by linarith
qed

lemma round_half_even_ge: "of_int n \<le> q \<Longrightarrow> n \<le> round_half_even q"
  using round_half_even_mono [of "of_int n" q] by (simp add: round_half_even_of_int)

lemma round_half_even_le: "q \<le> of_int n \<Longrightarrow> round_half_even q \<le> n"
  using round_half_even_mono [of q "of_int n"] by (simp add: round_half_even_of_int)

lemma powi_split: "(2::rat) powi e = 2 ^ 52 * 2 powi (e - 52)"
proof -
  have "e = 52 + (e - 52)" by simp
  then have "(2::rat) powi e = 2 powi (52 + (e - 52))" by (rule arg_cong)
  also have "\<dots> = 2 powi 52 * 2 powi (e - 52)" by (rule power_int_add) simp
  finally show ?thesis by simp
qed

lemma powi_split1: "(2::rat) powi (e + 1) = 2 ^ 53 * 2 powi (e - 52)"
proof -
  have "e + 1 = 53 + (e - 52)" by simp
  then have "(2::rat) powi (e + 1) = 2 powi (53 + (e - 52))" by (rule arg_cong)
  also have "\<dots> = 2 powi 53 * 2 powi (e - 52)" by (rule power_int_add) simp
  finally show ?thesis by simp
qed

lemma scaled_range:
  fixes x :: rat
  assumes "2 powi e \<le> x" "x < 2 powi (e + 1)"
  shows "2 ^ 52 \<le> x / 2 powi (e - 52)" "x / 2 powi (e - 52) < 2 ^ 53"
proof -
  have u: "(0::rat) < 2 powi (e - 52)" by simp
  from assms(1) powi_split [of e] have "2 ^ 52 * 2 powi (e - 52) \<le> x" by linarith
  then show "2 ^ 52 \<le> x / 2 powi (e - 52)" using u by (simp add: pos_le_divide_eq)
  from assms(2) powi_split1 [of e] have "x < 2 ^ 53 * 2 powi (e - 52)" by linarith
  then show "x / 2 powi (e - 52) < 2 ^ 53" using u by (simp add: pos_divide_less_eq)
qed

lemma rnd_in_binade:
  assumes "0 < x"
  shows "2 powi (expo x) \<le> rnd x \<and> rnd x \<le> 2 powi (expo x + 1)"
proof -
  define e where "e = expo x"
  define u :: rat where "u = 2 powi (e - 52)"
  have u: "0 < u" by (simp add: u_def)
  from expo_bounds [OF assms] have b: "2 powi e \<le> x" "x < 2 powi (e + 1)" by (simp_all add: e_def)
  from scaled_range [OF b] have q: "2 ^ 52 \<le> x / u" "x / u < 2 ^ 53" by (simp_all add: u_def)
  have r: "rnd x = of_int (round_half_even (x / u)) * u"
    using assms by (simp add: rnd_def u_def e_def Let_def)
  have "(2::int) ^ 52 \<le> round_half_even (x / u)"
    using q(1) by (intro round_half_even_ge) simp
  then have "(of_int ((2::int) ^ 52) :: rat) \<le> of_int (round_half_even (x / u))"
    by (simp only: of_int_le_iff)
  then have lo: "2 ^ 52 * u \<le> rnd x" unfolding r using u by (simp add: mult_right_mono)
  have "round_half_even (x / u) \<le> (2::int) ^ 53"
    using q(2) by (intro round_half_even_le) simp
  then have "(of_int (round_half_even (x / u)) :: rat) \<le> of_int ((2::int) ^ 53)"
    by (simp only: of_int_le_iff)
  then have hi: "rnd x \<le> 2 ^ 53 * u" unfolding r using u by (simp add: mult_right_mono)
  from lo hi show ?thesis
    unfolding e_def [symmetric] powi_split [of e] powi_split1 [of e] u_def by simp
qed

lemma rnd_nonneg: "0 \<le> x \<Longrightarrow> 0 \<le> rnd x"
proof (cases "x = 0")
  case True
  then show ?thesis by (simp add: rnd_def)
next
  case False
  assume "0 \<le> x"
  with False have "0 < x" by simp
  from rnd_in_binade [OF this] have "2 powi (expo x) \<le> rnd x" by simp
  moreover have "(0::rat) < 2 powi (expo x)" by simp
  ultimately show ?thesis by linarith
qed

lemma rnd_mono:
  assumes "0 \<le> x" "x \<le> y"
  shows "rnd x \<le> rnd y"
proof (cases "x = 0")
  case True
  with assms rnd_nonneg [of y] show ?thesis by (simp add: rnd_def)
next
  case False
  with assms have x: "0 < x" and y: "0 < y" by simp_all
  from expo_bounds [OF x] have bx: "2 powi (expo x) \<le> x" "x < 2 powi (expo x + 1)" by simp_all
  from expo_bounds [OF y] have "2 powi (expo y) \<le> y" "y < 2 powi (expo y + 1)" by simp_all
  with bx assms have "(2::rat) powi (expo x) < 2 powi (expo y + 1)" by linarith
  then have le: "expo x \<le> expo y" using powi2_less_imp by fastforce
  show ?thesis
  proof (cases "expo x = expo y")
    case True
    define u :: rat where "u = 2 powi (expo x - 52)"
    have u: "0 < u" by (simp add: u_def)
    have "x / u \<le> y / u" using assms u by (simp add: divide_right_mono)
    then have "round_half_even (x / u) \<le> round_half_even (y / u)" by (rule round_half_even_mono)
    then have "(of_int (round_half_even (x / u)) :: rat) \<le> of_int (round_half_even (y / u))"
      by (simp only: of_int_le_iff)
    then have "of_int (round_half_even (x / u)) * u \<le> of_int (round_half_even (y / u)) * u"
      using u by (simp add: mult_right_mono)
    then show ?thesis using x y True by (simp add: rnd_def u_def Let_def)
  next
    case False
    with le have "expo x + 1 \<le> expo y" by simp
    then have "(2::rat) powi (expo x + 1) \<le> 2 powi (expo y)" by (intro power_int_increasing) auto
    with rnd_in_binade [OF x] rnd_in_binade [OF y] show ?thesis by linarith
  qed
qed

lemma rnd_eqI:
  assumes "2 powi e \<le> x" "x < 2 powi (e + 1)" "\<bar>x / 2 powi (e - 52) - of_int m\<bar> < 1 / 2"
  shows "rnd x = of_int m * 2 powi (e - 52)"
proof -
  have "(0::rat) < 2 powi e" by simp
  with assms(1) have x: "0 < x" by linarith
  from expo_unique [OF assms(1,2)] have e: "expo x = e" .
  from round_half_even_eqI [OF assms(3)] show ?thesis using x by (simp add: rnd_def e Let_def)
qed

lemma rnd_exact:
  assumes "2 powi e \<le> x" "x < 2 powi (e + 1)" "x = of_int m * 2 powi (e - 52)"
  shows "rnd x = x"
proof -
  have "x / 2 powi (e - 52) = of_int m" using assms(3) by simp
  then have "\<bar>x / 2 powi (e - 52) - of_int m\<bar> < 1 / 2" by simp
  from rnd_eqI [OF assms(1,2) this] assms(3) show ?thesis by simp
qed

lemma rnd_idem:
  assumes "0 \<le> x"
  shows "rnd (rnd x) = rnd x"
proof (cases "x = 0")
  case True
  then show ?thesis by (simp add: rnd_def)
next
  case False
  with assms have x: "0 < x" by simp
  define e where "e = expo x"
  define u :: rat where "u = 2 powi (e - 52)"
  define m where "m = round_half_even (x / u)"
  have r: "rnd x = of_int m * u" using x by (simp add: rnd_def u_def e_def m_def Let_def)
  from rnd_in_binade [OF x] have b: "2 powi e \<le> rnd x" "rnd x \<le> 2 powi (e + 1)"
    by (simp_all add: e_def)
  show ?thesis
  proof (cases "rnd x < 2 powi (e + 1)")
    case True
    from rnd_exact [OF b(1) True] r show ?thesis by (simp add: u_def)
  next
    case False
    with b have top: "rnd x = 2 powi (e + 1)" by simp
    have "2 powi (e + 1) \<le> rnd x" using top by simp
    moreover have "rnd x < 2 powi (e + 1 + 1)"
      unfolding top by (intro power_int_strict_increasing) auto
    moreover have "rnd x = of_int (2 ^ 52) * 2 powi (e + 1 - 52)"
      unfolding top using powi_split [of "e + 1"] by simp
    ultimately show ?thesis by (rule rnd_exact)
  qed
qed

lemma rnd_tieI:
  assumes "2 powi e \<le> x" "x < 2 powi (e + 1)" "x / 2 powi (e - 52) = of_int m + 1 / 2"
  shows "rnd x = of_int (if even m then m else m + 1) * 2 powi (e - 52)"
proof -
  have "(0::rat) < 2 powi e" by simp
  with assms(1) have x: "0 < x" by linarith
  from expo_unique [OF assms(1,2)] have e: "expo x = e" .
  show ?thesis using x by (simp add: rnd_def e Let_def assms(3) round_half_even_tie)
qed

subsection \<open>Values of the float literals and of the products at the caps\<close>

lemma rnd_zero: "rnd 0 = 0"
  by (simp add: rnd_def)

lemma rnd_one: "rnd 1 = 1"
  by (rule rnd_exact [where e = 0 and m = "2 ^ 52"]) (simp_all add: power_int_minus)

lemma lit_0_3: "rnd (3 / 10) = 5404319552844595 / 18014398509481984"
proof -
  have "rnd (3 / 10) = of_int 5404319552844595 * 2 powi (- 2 - 52)"
    by (rule rnd_eqI) (simp_all add: power_int_minus)
  then show ?thesis by (simp add: power_int_minus)
qed

lemma lit_0_2: "rnd (2 / 10) = 3602879701896397 / 18014398509481984"
proof -
  have "rnd (2 / 10) = of_int 7205759403792794 * 2 powi (- 3 - 52)"
    by (rule rnd_eqI) (simp_all add: power_int_minus)
  then show ?thesis by (simp add: power_int_minus)
qed

lemma lit_0_1: "rnd (1 / 10) = 3602879701896397 / 36028797018963968"
proof -
  have "rnd (1 / 10) = of_int 7205759403792794 * 2 powi (- 4 - 52)"
    by (rule rnd_eqI) (simp_all add: power_int_minus)
  then show ?thesis by (simp add: power_int_minus)
qed

lemma lit_0_015: "rnd (15 / 1000) = 1080863910568919 / 72057594037927936"
proof -
  have "rnd (15 / 1000) = of_int 8646911284551352 * 2 powi (- 7 - 52)"
    by (rule rnd_eqI) (simp_all add: power_int_minus)
  then show ?thesis by (simp add: power_int_minus)
qed

lemma lit_0_02: "rnd (2 / 100) = 5764607523034235 / 288230376151711744"
proof -
  have "rnd (2 / 100) = of_int 5764607523034235 * 2 powi (- 6 - 52)"
    by (rule rnd_eqI) (simp_all add: power_int_minus)
  then show ?thesis by (simp add: power_int_minus)
qed

lemma lit_0_04: "rnd (4 / 100) = 5764607523034235 / 144115188075855872"
proof -
  have "rnd (4 / 100) = of_int 5764607523034235 * 2 powi (- 5 - 52)"
    by (rule rnd_eqI) (simp_all add: power_int_minus)
  then show ?thesis by (simp add: power_int_minus)
qed

lemma rnd_20: "rnd 20 = 20"
  by (rule rnd_exact [where e = 4 and m = "5 * 2 ^ 50"]) (simp_all add: power_int_minus)

lemma rnd_15: "rnd 15 = 15"
  by (rule rnd_exact [where e = 3 and m = "15 * 2 ^ 49"]) (simp_all add: power_int_minus)

lemma rnd_5: "rnd 5 = 5"
  by (rule rnd_exact [where e = 2 and m = "5 * 2 ^ 50"]) (simp_all add: power_int_minus)

lemma cap_keywords: "fmul (rnd 20) (rnd (15 / 1000)) = rnd (3 / 10)"
proof -
  have "rnd (20 * (1080863910568919 / 72057594037927936))
          = of_int 5404319552844595 * 2 powi (- 2 - 52)"
    by (rule rnd_eqI) (simp_all add: power_int_minus)
  then have "rnd (20 * (1080863910568919 / 72057594037927936))
          = 5404319552844595 / 18014398509481984"
    by (simp add: power_int_minus)
  then show ?thesis unfolding fmul_def rnd_20 lit_0_015 lit_0_3 .
qed

lemma cap_citations: "fmul (rnd 15) (rnd (2 / 100)) = rnd (3 / 10)"
proof -
  have "rnd (15 * (5764607523034235 / 288230376151711744))
          = of_int 5404319552844595 * 2 powi (- 2 - 52)"
    by (rule rnd_eqI) (simp_all add: power_int_minus)
  then have "rnd (15 * (5764607523034235 / 288230376151711744))
          = 5404319552844595 / 18014398509481984"
    by (simp add: power_int_minus)
  then show ?thesis unfolding fmul_def rnd_15 lit_0_02 lit_0_3 .
qed

lemma cap_sections: "fmul (rnd 5) (rnd (4 / 100)) = rnd (2 / 10)"
proof -
  have "rnd (5 * (5764607523034235 / 144115188075855872))
          = of_int 7205759403792794 * 2 powi (- 3 - 52)"
    by (rule rnd_eqI) (simp_all add: power_int_minus)
  then have "rnd (5 * (5764607523034235 / 144115188075855872))
          = 3602879701896397 / 18014398509481984"
    by (simp add: power_int_minus)
  then show ?thesis unfolding fmul_def rnd_5 lit_0_04 lit_0_2 .
qed

section \<open>The confidence score\<close>

lemma fadd_nonneg: "0 \<le> a \<Longrightarrow> 0 \<le> b \<Longrightarrow> 0 \<le> fadd a b"
  by (simp add: fadd_def rnd_nonneg)

lemma fmul_nonneg: "0 \<le> a \<Longrightarrow> 0 \<le> b \<Longrightarrow> 0 \<le> fmul a b"
  by (simp add: fmul_def rnd_nonneg)

lemma fadd_mono: "0 \<le> a \<Longrightarrow> 0 \<le> b \<Longrightarrow> a \<le> a' \<Longrightarrow> b \<le> b' \<Longrightarrow> fadd a b \<le> fadd a' b'"
  unfolding fadd_def by (rule rnd_mono) simp_all

lemma fmul_mono_left: "0 \<le> a \<Longrightarrow> 0 \<le> w \<Longrightarrow> a \<le> a' \<Longrightarrow> fmul a w \<le> fmul a' w"
  unfolding fmul_def by (rule rnd_mono) (simp_all add: mult_right_mono)

text \<open>Adding \<open>0.0\<close> to a float, on either side, returns the float.\<close>

lemma fadd_zero_left: "0 \<le> x \<Longrightarrow> fadd (rnd 0) (rnd x) = rnd x"
  by (simp add: fadd_def rnd_zero rnd_idem)

lemma fadd_zero_right: "0 \<le> x \<Longrightarrow> fadd (rnd x) (rnd 0) = rnd x"
  by (simp add: fadd_def rnd_zero rnd_idem)

lemma fadd_zero_left_min: "0 \<le> x \<Longrightarrow> 0 \<le> y \<Longrightarrow> fadd (rnd 0) (min (rnd x) (rnd y)) = min (rnd x) (rnd y)"
  by (simp add: min_def fadd_zero_left)

lemma int_to_float_fits: "fits_float n \<Longrightarrow> int_to_float n = Inr (rnd (of_nat n))"
  by (simp add: int_to_float_def fits_float_def)

lemma int_times_float_fits: "fits_float n \<Longrightarrow> int_times_float n w = Inr (fmul (rnd (of_nat n)) w)"
  by (simp add: int_times_float_def int_to_float_fits)

lemma int_to_float_overflow: "\<not> fits_float n \<Longrightarrow> int_to_float n = Inl OverflowError"
  by (simp add: int_to_float_def fits_float_def)

lemma lit_nonneg:
  "0 \<le> rnd (15 / 1000)" "0 \<le> rnd (2 / 100)" "0 \<le> rnd (4 / 100)"
  "0 \<le> rnd (3 / 10)" "0 \<le> rnd (2 / 10)" "0 \<le> rnd (1 / 10)" "0 \<le> rnd 0" "0 \<le> rnd 1"
  by (simp_all add: rnd_nonneg)

lemma contribution_nonneg:
  "0 \<le> keyword_contribution f" "0 \<le> citation_contribution f" "0 \<le> section_contribution f"
  "0 \<le> doi_bonus f" "0 \<le> issn_bonus f"
  by (simp_all add: keyword_contribution_def citation_contribution_def section_contribution_def
        doi_bonus_def issn_bonus_def fmul_nonneg rnd_nonneg)

lemma weighted_total_nonneg: "0 \<le> weighted_total f"
  unfolding weighted_total_def by (intro fadd_nonneg contribution_nonneg)

lemma score_first_step: "fadd (rnd 0) (keyword_contribution f) = keyword_contribution f"
  unfolding keyword_contribution_def fmul_def
  by (rule fadd_zero_left_min) (simp_all add: rnd_nonneg)

lemma calculate_confidence_score_eq:
  assumes "fits_float (keyword_count f)" "fits_float (citation_count f)" "fits_float (section_count f)"
  shows "calculate_confidence_score f = Inr (clamped_total f)"
proof -
  define s2 where "s2 = fadd (keyword_contribution f) (citation_contribution f)"
  have s2: "fadd s2 0 = s2"
    unfolding s2_def fadd_def
    using contribution_nonneg(1,2) [of f] by (simp add: rnd_idem)
  define s3 where "s3 = fadd s2 (doi_bonus f)"
  have s3: "fadd s3 0 = s3"
    unfolding s3_def fadd_def
    using contribution_nonneg(4) [of f] fadd_nonneg [OF contribution_nonneg(1,2), of f f]
    by (simp add: rnd_idem s2_def)
  have d: "(if has_doi f then fadd s2 (rnd (1 / 10)) else s2) = s3"
    using s2 by (simp add: s3_def doi_bonus_def rnd_zero)
  have i: "(if has_issn f then fadd s3 (rnd (1 / 10)) else s3) = fadd s3 (issn_bonus f)"
    using s3 by (simp add: issn_bonus_def rnd_zero)
  show ?thesis
    unfolding calculate_confidence_score_def
    by (simp only: int_times_float_fits [OF assms(1)] int_times_float_fits [OF assms(2)]
          int_times_float_fits [OF assms(3)] sum.case Let_def
          keyword_contribution_def [symmetric] citation_contribution_def [symmetric]
          section_contribution_def [symmetric] score_first_step s2_def [symmetric] d i
          clamped_total_def weighted_total_def s3_def [symmetric])
qed

text \<open>
  C1. For every feature set whose counts convert to floats, the confidence score is
  the sum of the five contributions, taken in order and clamped to at most \<open>1.0\<close>,
  and it lies between 0 and 1.
\<close>

theorem confidence_is_clamped_sum:
  assumes "fits_float (keyword_count f)" "fits_float (citation_count f)" "fits_float (section_count f)"
  shows "calculate_confidence_score f = Inr (clamped_total f)
         \<and> clamped_total f = min (weighted_total f) (rnd 1)
         \<and> weighted_total f
             = fadd (fadd (fadd (fadd (keyword_contribution f) (citation_contribution f))
                                (doi_bonus f)) (issn_bonus f)) (section_contribution f)
         \<and> 0 \<le> clamped_total f \<and> clamped_total f \<le> 1"
proof (intro conjI)
  show "calculate_confidence_score f = Inr (clamped_total f)"
    using assms by (rule calculate_confidence_score_eq)
  show "clamped_total f = min (weighted_total f) (rnd 1)"
    by (rule clamped_total_def)
  show "weighted_total f
      = fadd (fadd (fadd (fadd (keyword_contribution f) (citation_contribution f))
                         (doi_bonus f)) (issn_bonus f)) (section_contribution f)"
    by (rule weighted_total_def)
  show "0 \<le> clamped_total f"
    unfolding clamped_total_def rnd_one using weighted_total_nonneg [of f] by simp
  show "clamped_total f \<le> 1"
    unfolding clamped_total_def rnd_one by simp
qed

text \<open>
  The feature set at the three saturation points with both flags set: the sum of the
  five caps is rounded four times, the last time at a tie, and comes out as \<open>1.0\<close>.
\<close>

lemma sum_caps_steps:
  "fadd (rnd (3 / 10)) (rnd (3 / 10)) = 5404319552844595 / 9007199254740992"
  "fadd (5404319552844595 / 9007199254740992) (rnd (1 / 10)) = 3152519739159347 / 4503599627370496"
  "fadd (3152519739159347 / 4503599627370496) (rnd (1 / 10)) = 7205759403792793 / 9007199254740992"
  "fadd (7205759403792793 / 9007199254740992) (rnd (2 / 10)) = 1"
proof -
  have "rnd (5404319552844595 / 18014398509481984 + 5404319552844595 / 18014398509481984)
          = of_int 5404319552844595 * 2 powi (- 1 - 52)"
    by (rule rnd_eqI) (simp_all add: power_int_minus)
  then show "fadd (rnd (3 / 10)) (rnd (3 / 10)) = 5404319552844595 / 9007199254740992"
    unfolding fadd_def lit_0_3 by (simp add: power_int_minus)
  have "rnd (5404319552844595 / 9007199254740992 + 3602879701896397 / 36028797018963968)
          = of_int 6305039478318694 * 2 powi (- 1 - 52)"
    by (rule rnd_eqI) (simp_all add: power_int_minus)
  then show "fadd (5404319552844595 / 9007199254740992) (rnd (1 / 10)) = 3152519739159347 / 4503599627370496"
    unfolding fadd_def lit_0_1 by (simp add: power_int_minus)
  have "rnd (3152519739159347 / 4503599627370496 + 3602879701896397 / 36028797018963968)
          = of_int 7205759403792793 * 2 powi (- 1 - 52)"
    by (rule rnd_eqI) (simp_all add: power_int_minus)
  then show "fadd (3152519739159347 / 4503599627370496) (rnd (1 / 10)) = 7205759403792793 / 9007199254740992"
    unfolding fadd_def lit_0_1 by (simp add: power_int_minus)
  have "rnd (7205759403792793 / 9007199254740992 + 3602879701896397 / 18014398509481984)
          = of_int (if even (9007199254740991 :: int) then 9007199254740991 else 9007199254740991 + 1)
              * 2 powi (- 1 - 52)"
    by (rule rnd_tieI) (simp_all add: power_int_minus)
  then show "fadd (7205759403792793 / 9007199254740992) (rnd (2 / 10)) = 1"
    unfolding fadd_def lit_0_2 by (simp add: power_int_minus)
qed

lemma fits_float_small: "fits_float 20" "fits_float 15" "fits_float 5"
  by (simp_all add: fits_float_def)

lemma clamped_total_caps:
  "clamped_total \<lparr>keyword_count = 20, citation_count = 15, has_doi = True, has_issn = True,
                   section_count = 5\<rparr> = 1"
proof -
  define f where "f = \<lparr>keyword_count = 20, citation_count = 15, has_doi = True, has_issn = True,
                         section_count = 5\<rparr>"
  have n: "(of_nat 20 :: rat) = 20" "(of_nat 15 :: rat) = 15" "(of_nat 5 :: rat) = 5" by simp_all
  have k: "keyword_contribution f = rnd (3 / 10)"
    unfolding keyword_contribution_def f_def feature_set.simps n cap_keywords by simp
  have c: "citation_contribution f = rnd (3 / 10)"
    unfolding citation_contribution_def f_def feature_set.simps n cap_citations by simp
  have s: "section_contribution f = rnd (2 / 10)"
    unfolding section_contribution_def f_def feature_set.simps n cap_sections by simp
  have d: "doi_bonus f = rnd (1 / 10)" "issn_bonus f = rnd (1 / 10)"
    unfolding doi_bonus_def issn_bonus_def f_def feature_set.simps by simp_all
  have "weighted_total f = 1"
    unfolding weighted_total_def k c s d sum_caps_steps ..
  then show ?thesis
    unfolding f_def [symmetric] clamped_total_def rnd_one by simp
qed

theorem confidence_is_clamped_sum_witness:
  "fits_float 20 \<and> fits_float 15 \<and> fits_float 5
   \<and> calculate_confidence_score
        \<lparr>keyword_count = 20, citation_count = 15, has_doi = True, has_issn = True, section_count = 5\<rparr>
      = Inr 1"
proof -
  have "calculate_confidence_score
        \<lparr>keyword_count = 20, citation_count = 15, has_doi = True, has_issn = True, section_count = 5\<rparr>
      = Inr (clamped_total
        \<lparr>keyword_count = 20, citation_count = 15, has_doi = True, has_issn = True, section_count = 5\<rparr>)"
    using confidence_is_clamped_sum
      [of "\<lparr>keyword_count = 20, citation_count = 15, has_doi = True, has_issn = True, section_count = 5\<rparr>"]
      fits_float_small by simp
  then show ?thesis
    unfolding clamped_total_caps using fits_float_small by simp
qed

section \<open>Monotonicity and saturation of the score\<close>

lemma int_float_mono: "m \<le> n \<Longrightarrow> rnd (of_nat m) \<le> rnd (of_nat n)"
  by (rule rnd_mono) simp_all

lemma keyword_contribution_mono:
  "keyword_count f \<le> keyword_count g \<Longrightarrow> keyword_contribution f \<le> keyword_contribution g"
  unfolding keyword_contribution_def
  by (intro min.mono fmul_mono_left int_float_mono order_refl rnd_nonneg) simp_all

lemma citation_contribution_mono:
  "citation_count f \<le> citation_count g \<Longrightarrow> citation_contribution f \<le> citation_contribution g"
  unfolding citation_contribution_def
  by (intro min.mono fmul_mono_left int_float_mono order_refl rnd_nonneg) simp_all

lemma section_contribution_mono:
  "section_count f \<le> section_count g \<Longrightarrow> section_contribution f \<le> section_contribution g"
  unfolding section_contribution_def
  by (intro min.mono fmul_mono_left int_float_mono order_refl rnd_nonneg) simp_all

lemma clamped_total_mono:
  assumes "keyword_count f \<le> keyword_count g" "citation_count f \<le> citation_count g"
    "section_count f \<le> section_count g" "has_doi f = has_doi g" "has_issn f = has_issn g"
  shows "clamped_total f \<le> clamped_total g"
proof -
  have b: "doi_bonus f = doi_bonus g" "issn_bonus f = issn_bonus g"
    using assms(4,5) by (simp_all add: doi_bonus_def issn_bonus_def)
  have "weighted_total f \<le> weighted_total g"
    unfolding weighted_total_def b
    by (intro fadd_mono fadd_nonneg contribution_nonneg keyword_contribution_mono
          citation_contribution_mono section_contribution_mono assms order_refl)
  then show ?thesis
    unfolding clamped_total_def by (intro min.mono order_refl)
qed

lemma keyword_contribution_cap:
  "keyword_contribution f \<le> rnd (3 / 10)"
  "20 \<le> keyword_count f \<Longrightarrow> keyword_contribution f = rnd (3 / 10)"
proof -
  show "keyword_contribution f \<le> rnd (3 / 10)"
    by (simp add: keyword_contribution_def)
  assume "20 \<le> keyword_count f"
  then have "rnd (of_nat 20) \<le> rnd (of_nat (keyword_count f))" by (rule int_float_mono)
  then have "fmul (rnd 20) (rnd (15 / 1000)) \<le> fmul (rnd (of_nat (keyword_count f))) (rnd (15 / 1000))"
    by (intro fmul_mono_left rnd_nonneg) simp_all
  then show "keyword_contribution f = rnd (3 / 10)"
    unfolding keyword_contribution_def cap_keywords by (simp add: min_def)
qed

lemma citation_contribution_cap:
  "citation_contribution f \<le> rnd (3 / 10)"
  "15 \<le> citation_count f \<Longrightarrow> citation_contribution f = rnd (3 / 10)"
proof -
  show "citation_contribution f \<le> rnd (3 / 10)"
    by (simp add: citation_contribution_def)
  assume "15 \<le> citation_count f"
  then have "rnd (of_nat 15) \<le> rnd (of_nat (citation_count f))" by (rule int_float_mono)
  then have "fmul (rnd 15) (rnd (2 / 100)) \<le> fmul (rnd (of_nat (citation_count f))) (rnd (2 / 100))"
    by (intro fmul_mono_left rnd_nonneg) simp_all
  then show "citation_contribution f = rnd (3 / 10)"
    unfolding citation_contribution_def cap_citations by (simp add: min_def)
qed

lemma section_contribution_cap:
  "section_contribution f \<le> rnd (2 / 10)"
  "5 \<le> section_count f \<Longrightarrow> section_contribution f = rnd (2 / 10)"
proof -
  show "section_contribution f \<le> rnd (2 / 10)"
    by (simp add: section_contribution_def)
  assume "5 \<le> section_count f"
  then have "rnd (of_nat 5) \<le> rnd (of_nat (section_count f))" by (rule int_float_mono)
  then have "fmul (rnd 5) (rnd (4 / 100)) \<le> fmul (rnd (of_nat (section_count f))) (rnd (4 / 100))"
    by (intro fmul_mono_left rnd_nonneg) simp_all
  then show "section_contribution f = rnd (2 / 10)"
    unfolding section_contribution_def cap_sections by (simp add: min_def)
qed

lemma clamped_total_cong:
  assumes "keyword_contribution f = keyword_contribution g"
    "citation_contribution f = citation_contribution g"
    "section_contribution f = section_contribution g" "has_doi f = has_doi g" "has_issn f = has_issn g"
  shows "clamped_total f = clamped_total g"
  using assms by (simp add: clamped_total_def weighted_total_def doi_bonus_def issn_bonus_def)

lemma contribution_update:
  "citation_contribution (f\<lparr>keyword_count := k\<rparr>) = citation_contribution f"
  "section_contribution (f\<lparr>keyword_count := k\<rparr>) = section_contribution f"
  "keyword_contribution (f\<lparr>citation_count := k\<rparr>) = keyword_contribution f"
  "section_contribution (f\<lparr>citation_count := k\<rparr>) = section_contribution f"
  "keyword_contribution (f\<lparr>section_count := k\<rparr>) = keyword_contribution f"
  "citation_contribution (f\<lparr>section_count := k\<rparr>) = citation_contribution f"
  by (simp_all add: keyword_contribution_def citation_contribution_def section_contribution_def)

text \<open>
  C8. With the other features held fixed, raising the keyword count, the citation
  count or the section count (each to any higher value of its own) never lowers the
  score; each contribution is at most its cap (\<open>0.30\<close>, \<open>0.30\<close>, \<open>0.20\<close>) and
  equals the cap from 20 keywords, 15 citations and 5 sections on, and from there on
  a higher count leaves the score unchanged. (All counts convert to floats.)
\<close>

theorem confidence_monotone_and_saturating:
  assumes "fits_float (keyword_count f)" "fits_float (citation_count f)" "fits_float (section_count f)"
  shows "calculate_confidence_score f = Inr (clamped_total f)
    \<and> (fits_float k \<and> keyword_count f \<le> k \<longrightarrow>
          calculate_confidence_score (f\<lparr>keyword_count := k\<rparr>)
            = Inr (clamped_total (f\<lparr>keyword_count := k\<rparr>))
          \<and> clamped_total f \<le> clamped_total (f\<lparr>keyword_count := k\<rparr>))
    \<and> (fits_float c \<and> citation_count f \<le> c \<longrightarrow>
          calculate_confidence_score (f\<lparr>citation_count := c\<rparr>)
            = Inr (clamped_total (f\<lparr>citation_count := c\<rparr>))
          \<and> clamped_total f \<le> clamped_total (f\<lparr>citation_count := c\<rparr>))
    \<and> (fits_float s \<and> section_count f \<le> s \<longrightarrow>
          calculate_confidence_score (f\<lparr>section_count := s\<rparr>)
            = Inr (clamped_total (f\<lparr>section_count := s\<rparr>))
          \<and> clamped_total f \<le> clamped_total (f\<lparr>section_count := s\<rparr>))
    \<and> keyword_contribution f \<le> rnd (3 / 10)
    \<and> citation_contribution f \<le> rnd (3 / 10)
    \<and> section_contribution f \<le> rnd (2 / 10)
    \<and> (20 \<le> keyword_count f \<longrightarrow> keyword_contribution f = rnd (3 / 10))
    \<and> (15 \<le> citation_count f \<longrightarrow> citation_contribution f = rnd (3 / 10))
    \<and> (5 \<le> section_count f \<longrightarrow> section_contribution f = rnd (2 / 10))
    \<and> (fits_float k \<and> 20 \<le> keyword_count f \<and> keyword_count f \<le> k \<longrightarrow>
          calculate_confidence_score (f\<lparr>keyword_count := k\<rparr>) = calculate_confidence_score f)
    \<and> (fits_float c \<and> 15 \<le> citation_count f \<and> citation_count f \<le> c \<longrightarrow>
          calculate_confidence_score (f\<lparr>citation_count := c\<rparr>) = calculate_confidence_score f)
    \<and> (fits_float s \<and> 5 \<le> section_count f \<and> section_count f \<le> s \<longrightarrow>
          calculate_confidence_score (f\<lparr>section_count := s\<rparr>) = calculate_confidence_score f)"
proof -
  have e: "calculate_confidence_score f = Inr (clamped_total f)"
    using assms by (rule calculate_confidence_score_eq)
  have ek: "calculate_confidence_score (f\<lparr>keyword_count := k\<rparr>) = Inr (clamped_total (f\<lparr>keyword_count := k\<rparr>))"
    if "fits_float k" using assms(2,3) that by (intro calculate_confidence_score_eq) simp_all
  have ec: "calculate_confidence_score (f\<lparr>citation_count := c\<rparr>) = Inr (clamped_total (f\<lparr>citation_count := c\<rparr>))"
    if "fits_float c" using assms(1,3) that by (intro calculate_confidence_score_eq) simp_all
  have es: "calculate_confidence_score (f\<lparr>section_count := s\<rparr>) = Inr (clamped_total (f\<lparr>section_count := s\<rparr>))"
    if "fits_float s" using assms(1,2) that by (intro calculate_confidence_score_eq) simp_all
  have mk: "clamped_total f \<le> clamped_total (f\<lparr>keyword_count := k\<rparr>)" if "keyword_count f \<le> k"
    using that by (intro clamped_total_mono) simp_all
  have mc: "clamped_total f \<le> clamped_total (f\<lparr>citation_count := c\<rparr>)" if "citation_count f \<le> c"
    using that by (intro clamped_total_mono) simp_all
  have ms: "clamped_total f \<le> clamped_total (f\<lparr>section_count := s\<rparr>)" if "section_count f \<le> s"
    using that by (intro clamped_total_mono) simp_all
  have sk: "clamped_total (f\<lparr>keyword_count := k\<rparr>) = clamped_total f"
    if "20 \<le> keyword_count f" "keyword_count f \<le> k"
  proof (rule clamped_total_cong)
    from that have "20 \<le> keyword_count (f\<lparr>keyword_count := k\<rparr>)" by simp
    then show "keyword_contribution (f\<lparr>keyword_count := k\<rparr>) = keyword_contribution f"
      using that(1) by (simp only: keyword_contribution_cap(2))
  qed (simp_all add: contribution_update)
  have sc: "clamped_total (f\<lparr>citation_count := c\<rparr>) = clamped_total f"
    if "15 \<le> citation_count f" "citation_count f \<le> c"
  proof (rule clamped_total_cong)
    from that have "15 \<le> citation_count (f\<lparr>citation_count := c\<rparr>)" by simp
    then show "citation_contribution (f\<lparr>citation_count := c\<rparr>) = citation_contribution f"
      using that(1) by (simp only: citation_contribution_cap(2))
  qed (simp_all add: contribution_update)
  have ss: "clamped_total (f\<lparr>section_count := s\<rparr>) = clamped_total f"
    if "5 \<le> section_count f" "section_count f \<le> s"
  proof (rule clamped_total_cong)
    from that have "5 \<le> section_count (f\<lparr>section_count := s\<rparr>)" by simp
    then show "section_contribution (f\<lparr>section_count := s\<rparr>) = section_contribution f"
      using that(1) by (simp only: section_contribution_cap(2))
  qed (simp_all add: contribution_update)
  show ?thesis
  proof (intro conjI impI)
    show "calculate_confidence_score (f\<lparr>keyword_count := k\<rparr>) = calculate_confidence_score f"
      if "fits_float k \<and> 20 \<le> keyword_count f \<and> keyword_count f \<le> k"
      using that e ek sk by simp
    show "calculate_confidence_score (f\<lparr>citation_count := c\<rparr>) = calculate_confidence_score f"
      if "fits_float c \<and> 15 \<le> citation_count f \<and> citation_count f \<le> c"
      using that e ec sc by simp
    show "calculate_confidence_score (f\<lparr>section_count := s\<rparr>) = calculate_confidence_score f"
      if "fits_float s \<and> 5 \<le> section_count f \<and> section_count f \<le> s"
      using that e es ss by simp
    show "calculate_confidence_score (f\<lparr>keyword_count := k\<rparr>)
            = Inr (clamped_total (f\<lparr>keyword_count := k\<rparr>))"
      if "fits_float k \<and> keyword_count f \<le> k" using that ek by blast
    show "calculate_confidence_score (f\<lparr>citation_count := c\<rparr>)
            = Inr (clamped_total (f\<lparr>citation_count := c\<rparr>))"
      if "fits_float c \<and> citation_count f \<le> c" using that ec by blast
    show "calculate_confidence_score (f\<lparr>section_count := s\<rparr>)
            = Inr (clamped_total (f\<lparr>section_count := s\<rparr>))"
      if "fits_float s \<and> section_count f \<le> s" using that es by blast
    show "clamped_total f \<le> clamped_total (f\<lparr>keyword_count := k\<rparr>)"
      if "fits_float k \<and> keyword_count f \<le> k" using that mk by blast
    show "clamped_total f \<le> clamped_total (f\<lparr>citation_count := c\<rparr>)"
      if "fits_float c \<and> citation_count f \<le> c" using that mc by blast
    show "clamped_total f \<le> clamped_total (f\<lparr>section_count := s\<rparr>)"
      if "fits_float s \<and> section_count f \<le> s" using that ms by blast
  qed (fact e keyword_contribution_cap citation_contribution_cap section_contribution_cap
        | erule keyword_contribution_cap citation_contribution_cap section_contribution_cap)+
qed

text \<open>
  Two instances: the feature set at the three saturation points, raised to 40
  keywords, 30 citations and 9 sections, and a feature set with 50 citations whose
  keyword count goes from 3 to 10.
\<close>

lemma score_example_three_keywords:
  "clamped_total \<lparr>keyword_count = 3, citation_count = 50, has_doi = False, has_issn = False, section_count = 2\<rparr> = 7656119366529843 / 18014398509481984"
proof -
  define f where "f = \<lparr>keyword_count = 3, citation_count = 50, has_doi = False, has_issn = False, section_count = 2\<rparr>"
  have "rnd (3) = of_int 6755399441055744 * 2 powi (1 - 52)"
    by (rule rnd_eqI) (simp_all add: power_int_minus)
  then have n_k: "rnd (3) = 3"
    by (simp add: power_int_minus)
  have "rnd (3 * (1080863910568919 / 72057594037927936)) = of_int 6485183463413514 * 2 powi (-5 - 52)"
    by (rule rnd_eqI) (simp_all add: power_int_minus)
  then have p_k: "rnd (3 * (1080863910568919 / 72057594037927936)) = 3242591731706757 / 72057594037927936"
    by (simp add: power_int_minus)
  have c_k: "keyword_contribution f = 3242591731706757 / 72057594037927936"
    unfolding keyword_contribution_def f_def feature_set.simps fmul_def of_nat_numeral of_nat_0 of_nat_1 n_k lit_0_015 p_k lit_0_3
    by simp
  have "rnd (50) = of_int 7036874417766400 * 2 powi (5 - 52)"
    by (rule rnd_eqI) (simp_all add: power_int_minus)
  then have n_c: "rnd (50) = 50"
    by (simp add: power_int_minus)
  have "rnd (50 * (5764607523034235 / 288230376151711744)) = of_int 4503599627370496 * 2 powi (0 - 52)"
    by (rule rnd_eqI) (simp_all add: power_int_minus)
  then have p_c: "rnd (50 * (5764607523034235 / 288230376151711744)) = 1"
    by (simp add: power_int_minus)
  have c_c: "citation_contribution f = 5404319552844595 / 18014398509481984"
    unfolding citation_contribution_def f_def feature_set.simps fmul_def of_nat_numeral of_nat_0 of_nat_1 n_c lit_0_02 p_c lit_0_3
    by simp
  have "rnd (2) = of_int 4503599627370496 * 2 powi (1 - 52)"
    by (rule rnd_eqI) (simp_all add: power_int_minus)
  then have n_s: "rnd (2) = 2"
    by (simp add: power_int_minus)
  have "rnd (2 * (5764607523034235 / 144115188075855872)) = of_int 5764607523034235 * 2 powi (-4 - 52)"
    by (rule rnd_eqI) (simp_all add: power_int_minus)
  then have p_s: "rnd (2 * (5764607523034235 / 144115188075855872)) = 5764607523034235 / 72057594037927936"
    by (simp add: power_int_minus)
  have c_s: "section_contribution f = 5764607523034235 / 72057594037927936"
    unfolding section_contribution_def f_def feature_set.simps fmul_def of_nat_numeral of_nat_0 of_nat_1 n_s lit_0_04 p_s lit_0_2
    by simp
  have b: "doi_bonus f = 0" "issn_bonus f = 0"
    unfolding doi_bonus_def issn_bonus_def f_def feature_set.simps lit_0_1 rnd_zero by simp_all
  have "rnd (3242591731706757 / 72057594037927936 + 5404319552844595 / 18014398509481984) = of_int 6214967485771284 * 2 powi (-2 - 52)"
    by (rule rnd_eqI) (simp_all add: power_int_minus)
  then have s2: "rnd (3242591731706757 / 72057594037927936 + 5404319552844595 / 18014398509481984) = 1553741871442821 / 4503599627370496"
    by (simp add: power_int_minus)
  have "rnd (1553741871442821 / 4503599627370496 + 0) = of_int 6214967485771284 * 2 powi (-2 - 52)"
    by (rule rnd_eqI) (simp_all add: power_int_minus)
  then have s3: "rnd (1553741871442821 / 4503599627370496 + 0) = 1553741871442821 / 4503599627370496"
    by (simp add: power_int_minus)
  have "rnd (1553741871442821 / 4503599627370496 + 0) = of_int 6214967485771284 * 2 powi (-2 - 52)"
    by (rule rnd_eqI) (simp_all add: power_int_minus)
  then have s4: "rnd (1553741871442821 / 4503599627370496 + 0) = 1553741871442821 / 4503599627370496"
    by (simp add: power_int_minus)
  have "rnd (1553741871442821 / 4503599627370496 + 5764607523034235 / 72057594037927936) = of_int 7656119366529843 * 2 powi (-2 - 52)"
    by (rule rnd_eqI) (simp_all add: power_int_minus)
  then have s5: "rnd (1553741871442821 / 4503599627370496 + 5764607523034235 / 72057594037927936) = 7656119366529843 / 18014398509481984"
    by (simp add: power_int_minus)
  have "weighted_total f = 7656119366529843 / 18014398509481984"
    unfolding weighted_total_def c_k c_c c_s b fadd_def s2 s3 s4 s5 ..
  then show ?thesis
    unfolding f_def [symmetric] clamped_total_def rnd_one by simp
qed

lemma score_example_ten_keywords:
  "clamped_total \<lparr>keyword_count = 10, citation_count = 50, has_doi = False, has_issn = False, section_count = 2\<rparr> = 4773815605012725 / 9007199254740992"
proof -
  define f where "f = \<lparr>keyword_count = 10, citation_count = 50, has_doi = False, has_issn = False, section_count = 2\<rparr>"
  have "rnd (10) = of_int 5629499534213120 * 2 powi (3 - 52)"
    by (rule rnd_eqI) (simp_all add: power_int_minus)
  then have n_k: "rnd (10) = 10"
    by (simp add: power_int_minus)
  have "rnd (10 * (1080863910568919 / 72057594037927936)) = of_int 5404319552844595 * 2 powi (-3 - 52)"
    by (rule rnd_eqI) (simp_all add: power_int_minus)
  then have p_k: "rnd (10 * (1080863910568919 / 72057594037927936)) = 5404319552844595 / 36028797018963968"
    by (simp add: power_int_minus)
  have c_k: "keyword_contribution f = 5404319552844595 / 36028797018963968"
    unfolding keyword_contribution_def f_def feature_set.simps fmul_def of_nat_numeral of_nat_0 of_nat_1 n_k lit_0_015 p_k lit_0_3
    by simp
  have "rnd (50) = of_int 7036874417766400 * 2 powi (5 - 52)"
    by (rule rnd_eqI) (simp_all add: power_int_minus)
  then have n_c: "rnd (50) = 50"
    by (simp add: power_int_minus)
  have "rnd (50 * (5764607523034235 / 288230376151711744)) = of_int 4503599627370496 * 2 powi (0 - 52)"
    by (rule rnd_eqI) (simp_all add: power_int_minus)
  then have p_c: "rnd (50 * (5764607523034235 / 288230376151711744)) = 1"
    by (simp add: power_int_minus)
  have c_c: "citation_contribution f = 5404319552844595 / 18014398509481984"
    unfolding citation_contribution_def f_def feature_set.simps fmul_def of_nat_numeral of_nat_0 of_nat_1 n_c lit_0_02 p_c lit_0_3
    by simp
  have "rnd (2) = of_int 4503599627370496 * 2 powi (1 - 52)"
    by (rule rnd_eqI) (simp_all add: power_int_minus)
  then have n_s: "rnd (2) = 2"
    by (simp add: power_int_minus)
  have "rnd (2 * (5764607523034235 / 144115188075855872)) = of_int 5764607523034235 * 2 powi (-4 - 52)"
    by (rule rnd_eqI) (simp_all add: power_int_minus)
  then have p_s: "rnd (2 * (5764607523034235 / 144115188075855872)) = 5764607523034235 / 72057594037927936"
    by (simp add: power_int_minus)
  have c_s: "section_contribution f = 5764607523034235 / 72057594037927936"
    unfolding section_contribution_def f_def feature_set.simps fmul_def of_nat_numeral of_nat_0 of_nat_1 n_s lit_0_04 p_s lit_0_2
    by simp
  have b: "doi_bonus f = 0" "issn_bonus f = 0"
    unfolding doi_bonus_def issn_bonus_def f_def feature_set.simps lit_0_1 rnd_zero by simp_all
  have "rnd (5404319552844595 / 36028797018963968 + 5404319552844595 / 18014398509481984) = of_int (if even (8106479329266892 :: int) then 8106479329266892 else 8106479329266892 + 1) * 2 powi (-2 - 52)"
    by (rule rnd_tieI) (simp_all add: power_int_minus)
  then have s2: "rnd (5404319552844595 / 36028797018963968 + 5404319552844595 / 18014398509481984) = 2026619832316723 / 4503599627370496"
    by (simp add: power_int_minus)
  have "rnd (2026619832316723 / 4503599627370496 + 0) = of_int 8106479329266892 * 2 powi (-2 - 52)"
    by (rule rnd_eqI) (simp_all add: power_int_minus)
  then have s3: "rnd (2026619832316723 / 4503599627370496 + 0) = 2026619832316723 / 4503599627370496"
    by (simp add: power_int_minus)
  have "rnd (2026619832316723 / 4503599627370496 + 0) = of_int 8106479329266892 * 2 powi (-2 - 52)"
    by (rule rnd_eqI) (simp_all add: power_int_minus)
  then have s4: "rnd (2026619832316723 / 4503599627370496 + 0) = 2026619832316723 / 4503599627370496"
    by (simp add: power_int_minus)
  have "rnd (2026619832316723 / 4503599627370496 + 5764607523034235 / 72057594037927936) = of_int 4773815605012725 * 2 powi (-1 - 52)"
    by (rule rnd_eqI) (simp_all add: power_int_minus)
  then have s5: "rnd (2026619832316723 / 4503599627370496 + 5764607523034235 / 72057594037927936) = 4773815605012725 / 9007199254740992"
    by (simp add: power_int_minus)
  have "weighted_total f = 4773815605012725 / 9007199254740992"
    unfolding weighted_total_def c_k c_c c_s b fadd_def s2 s3 s4 s5 ..
  then show ?thesis
    unfolding f_def [symmetric] clamped_total_def rnd_one by simp
qed

lemma fits_float_more: "fits_float 40" "fits_float 30" "fits_float 9" "fits_float 3" "fits_float 50"
  "fits_float 2" "fits_float 10"
  by (simp_all add: fits_float_def)

theorem confidence_monotone_and_saturating_witness:
  "fits_float 20 \<and> fits_float 15 \<and> fits_float 5
   \<and> fits_float 40 \<and> fits_float 30 \<and> fits_float 9
   \<and> (20::nat) \<le> 40 \<and> (15::nat) \<le> 30 \<and> (5::nat) \<le> 9
   \<and> keyword_contribution
        \<lparr>keyword_count = 20, citation_count = 15, has_doi = True, has_issn = True, section_count = 5\<rparr>
       = rnd (3 / 10)
   \<and> calculate_confidence_score
        \<lparr>keyword_count = 40, citation_count = 15, has_doi = True, has_issn = True, section_count = 5\<rparr>
       = Inr 1
   \<and> calculate_confidence_score
        \<lparr>keyword_count = 20, citation_count = 30, has_doi = True, has_issn = True, section_count = 5\<rparr>
       = Inr 1
   \<and> calculate_confidence_score
        \<lparr>keyword_count = 20, citation_count = 15, has_doi = True, has_issn = True, section_count = 9\<rparr>
       = Inr 1
   \<and> fits_float 3 \<and> fits_float 50 \<and> fits_float 2 \<and> fits_float 10 \<and> (3::nat) \<le> 10
   \<and> calculate_confidence_score
        \<lparr>keyword_count = 3, citation_count = 50, has_doi = False, has_issn = False, section_count = 2\<rparr>
       = Inr (7656119366529843 / 18014398509481984)
   \<and> calculate_confidence_score
        \<lparr>keyword_count = 10, citation_count = 50, has_doi = False, has_issn = False, section_count = 2\<rparr>
       = Inr (4773815605012725 / 9007199254740992)
   \<and> (7656119366529843 / 18014398509481984 :: rat) \<le> 4773815605012725 / 9007199254740992"
proof -
  define f where "f = \<lparr>keyword_count = 20, citation_count = 15, has_doi = True, has_issn = True,
                         section_count = 5\<rparr>"
  have fits: "fits_float (keyword_count f)" "fits_float (citation_count f)"
    "fits_float (section_count f)"
    by (simp_all add: f_def fits_float_def)
  have sat: "fits_float 40 \<and> 20 \<le> keyword_count f \<and> keyword_count f \<le> 40"
    "fits_float 30 \<and> 15 \<le> citation_count f \<and> citation_count f \<le> 30"
    "fits_float 9 \<and> 5 \<le> section_count f \<and> section_count f \<le> 9"
    "20 \<le> keyword_count f"
    by (simp_all add: f_def fits_float_more)
  note inst = confidence_monotone_and_saturating [OF fits, of 40 30 9]
  have one: "calculate_confidence_score f = Inr 1"
    using inst clamped_total_caps by (simp only: f_def)
  from inst sat have k: "keyword_contribution f = rnd (3 / 10)"
    and ek: "calculate_confidence_score (f\<lparr>keyword_count := 40\<rparr>) = calculate_confidence_score f"
    and ec: "calculate_confidence_score (f\<lparr>citation_count := 30\<rparr>) = calculate_confidence_score f"
    and es: "calculate_confidence_score (f\<lparr>section_count := 9\<rparr>) = calculate_confidence_score f"
    by blast+
  have upd: "f\<lparr>keyword_count := 40\<rparr>
        = \<lparr>keyword_count = 40, citation_count = 15, has_doi = True, has_issn = True, section_count = 5\<rparr>"
    "f\<lparr>citation_count := 30\<rparr>
        = \<lparr>keyword_count = 20, citation_count = 30, has_doi = True, has_issn = True, section_count = 5\<rparr>"
    "f\<lparr>section_count := 9\<rparr>
        = \<lparr>keyword_count = 20, citation_count = 15, has_doi = True, has_issn = True, section_count = 9\<rparr>"
    by (simp_all add: f_def)
  have r1: "calculate_confidence_score (f\<lparr>keyword_count := 40\<rparr>) = Inr 1"
    "calculate_confidence_score (f\<lparr>citation_count := 30\<rparr>) = Inr 1"
    "calculate_confidence_score (f\<lparr>section_count := 9\<rparr>) = Inr 1"
    unfolding ek ec es by (fact one)+
  note r2 = r1 [unfolded upd] k [unfolded f_def]
  define g where "g = \<lparr>keyword_count = 3, citation_count = 50, has_doi = False, has_issn = False,
                         section_count = 2\<rparr>"
  have gfits: "fits_float (keyword_count g)" "fits_float (citation_count g)"
    "fits_float (section_count g)"
    by (simp_all add: g_def fits_float_def)
  have gk: "fits_float 10 \<and> keyword_count g \<le> 10" by (simp add: g_def fits_float_more)
  note ginst = confidence_monotone_and_saturating [OF gfits, of 10 50 2]
  have gupd: "g\<lparr>keyword_count := 10\<rparr>
        = \<lparr>keyword_count = 10, citation_count = 50, has_doi = False, has_issn = False, section_count = 2\<rparr>"
    by (simp add: g_def)
  from ginst have g3: "calculate_confidence_score g = Inr (clamped_total g)" by blast
  from ginst gk have g10: "calculate_confidence_score (g\<lparr>keyword_count := 10\<rparr>)
        = Inr (clamped_total (g\<lparr>keyword_count := 10\<rparr>))"
    and gle: "clamped_total g \<le> clamped_total (g\<lparr>keyword_count := 10\<rparr>)"
    by blast+
  note g3' = g3 [unfolded g_def score_example_three_keywords]
  note g10' = g10 [unfolded gupd score_example_ten_keywords]
  note gle' = gle [unfolded gupd, unfolded g_def score_example_three_keywords score_example_ten_keywords]
  show ?thesis
    by (intro conjI) (fact r2 fits_float_small fits_float_more g3' g10' gle' | simp)+
qed

section \<open>Classification\<close>

subsection \<open>The counts of a text convert to floats\<close>

lemma findall_scan_length: "length (findall_scan pat skip prev s) \<le> length s + 1"
proof (induction s arbitrary: skip prev)
  case Nil
  show ?case by simp
next
  case (Cons c cs)
  show ?case
  proof (cases "0 < skip")
    case True
    with Cons [of "skip - 1" "Some c"] show ?thesis by simp
  next
    case False
    show ?thesis
    proof (cases "match_here pat prev (c # cs)")
      case None
      with False Cons [of 0 "Some c"] show ?thesis by simp
    next
      case (Some n)
      with False Cons [of "n - 1" "Some c"] show ?thesis by simp
    qed
  qed
qed

lemma re_findall_length: "length (re_findall pat s) \<le> length s + 1"
  unfolding re_findall_def by (rule findall_scan_length)

lemma extract_features_bounds:
  "keyword_count (extract_features t) \<le> 36"
  "citation_count (extract_features t) \<le> 3 * (length t + 1)"
  "section_count (extract_features t) \<le> 6"
proof -
  have "length (filter P scientific_keywords) \<le> 36" for P
    using length_filter_le [of P scientific_keywords] by (simp add: scientific_keywords_def)
  then show "keyword_count (extract_features t) \<le> 36"
    by (simp add: extract_features_def Let_def)
  have "length (filter P sections) \<le> 6" for P
    using length_filter_le [of P sections] by (simp add: sections_def)
  then show "section_count (extract_features t) \<le> 6"
    by (simp add: extract_features_def Let_def)
  show "citation_count (extract_features t) \<le> 3 * (length t + 1)"
    using re_findall_length [of citation_author_year t] re_findall_length [of citation_bracket t]
      re_findall_length [of citation_et_al t]
    by (simp add: extract_features_def Let_def citation_patterns_def)
qed

lemma fits_floatI: "n \<le> 3 * 2 ^ 63 \<Longrightarrow> fits_float n"
proof -
  have "(3::nat) * 2 ^ 63 < 2 ^ 1024 - 2 ^ 970" by simp
  then show "n \<le> 3 * 2 ^ 63 \<Longrightarrow> fits_float n" unfolding fits_float_def by linarith
qed

lemma extract_features_fits:
  assumes "length t \<le> py_ssize_t_max"
  shows "fits_float (keyword_count (extract_features t))"
    "fits_float (citation_count (extract_features t))"
    "fits_float (section_count (extract_features t))"
proof -
  from assms have "3 * (length t + 1) \<le> 3 * 2 ^ 63" by (simp add: py_ssize_t_max_def)
  with extract_features_bounds(2) [of t] have "citation_count (extract_features t) \<le> 3 * 2 ^ 63"
    by linarith
  then show "fits_float (citation_count (extract_features t))" by (rule fits_floatI)
  have "keyword_count (extract_features t) \<le> 3 * 2 ^ 63"
    using extract_features_bounds(1) [of t] by simp
  then show "fits_float (keyword_count (extract_features t))" by (rule fits_floatI)
  have "section_count (extract_features t) \<le> 3 * 2 ^ 63"
    using extract_features_bounds(3) [of t] by simp
  then show "fits_float (section_count (extract_features t))" by (rule fits_floatI)
qed

lemma score_of_text:
  "length t \<le> py_ssize_t_max \<Longrightarrow>
   calculate_confidence_score (extract_features t) = Inr (clamped_total (extract_features t))"
  by (intro calculate_confidence_score_eq extract_features_fits)

subsection \<open>The threshold\<close>

text \<open>
  C2. For every text that passes the length gate (at least 100 characters after
  trimming), \<open>classify\<close> returns a verdict whose confidence is the computed score and
  whose \<open>is_scientific\<close> is true exactly when that confidence is at least \<open>0.3\<close>: true
  at exactly \<open>0.3\<close>, false below.
\<close>

theorem classify_threshold:
  assumes "100 \<le> length (py_strip t)" and "length t \<le> py_ssize_t_max"
  shows "\<exists>v. classify (Some t) = Inr v
           \<and> calculate_confidence_score (extract_features t) = Inr (confidence v)
           \<and> features v = Some (extract_features t)
           \<and> is_scientific v = (rnd (3 / 10) \<le> confidence v)
           \<and> (confidence v = rnd (3 / 10) \<longrightarrow> is_scientific v)
           \<and> (confidence v < rnd (3 / 10) \<longrightarrow> \<not> is_scientific v)"
proof -
  from assms(1) have ne: "t \<noteq> []" by (auto simp: py_strip_def)
  from assms(1) have gate: "\<not> length (py_strip t) < 100" by simp
  define v where "v =
    \<lparr>is_scientific = (rnd (3 / 10) \<le> clamped_total (extract_features t)),
     confidence = clamped_total (extract_features t),
     reason = (if rnd (3 / 10) \<le> clamped_total (extract_features t)
               then ''Artigo Cient'' @ [CHR 0xED] @ ''fico''
               else ''N'' @ [CHR 0xE3] @ ''o '' @ [CHR 0xE9] @ '' artigo cient'' @ [CHR 0xED] @ ''fico''),
     features = Some (extract_features t)\<rparr>"
  have "classify (Some t) = Inr v"
    unfolding classify_def v_def using ne gate score_of_text [OF assms(2)]
    by (simp add: Let_def)
  moreover have "calculate_confidence_score (extract_features t) = Inr (confidence v)"
    using score_of_text [OF assms(2)] by (simp add: v_def)
  moreover have "features v = Some (extract_features t)" by (simp add: v_def)
  moreover have "is_scientific v = (rnd (3 / 10) \<le> confidence v)" by (simp add: v_def)
  ultimately show ?thesis by (intro exI [of _ v]) auto
qed

subsection \<open>The length gate\<close>

text \<open>
  C3, as the sources have it. For a missing text, an empty text and every text with
  fewer than 100 characters after trimming, \<open>classify\<close> returns the fixed verdict: not
  scientific, confidence \<open>0.0\<close>, no features, and the reason \<open>Texto muito curto\<close>. No
  feature of the text enters the verdict.
\<close>

theorem classify_too_short:
  "classify None = Inr too_short_verdict
   \<and> classify (Some []) = Inr too_short_verdict
   \<and> (length (py_strip t) < 100 \<longrightarrow> classify (Some t) = Inr too_short_verdict)
   \<and> is_scientific too_short_verdict = False
   \<and> confidence too_short_verdict = 0
   \<and> features too_short_verdict = None
   \<and> reason too_short_verdict = ''Texto muito curto''"
  by (simp add: classify_def too_short_verdict_def rnd_zero)

text \<open>
  The reason of that verdict is the message of the sources, not the English wording
  \<open>text too short\<close>.
\<close>

theorem classify_too_short_reason_counterexample:
  "classify None
     \<noteq> Inr \<lparr>is_scientific = False, confidence = 0, reason = ''text too short'', features = None\<rparr>"
  by (simp add: classify_def)

subsection \<open>Two texts\<close>

lemma sample_article_features:
  "extract_features sample_article
     = \<lparr>keyword_count = 7, citation_count = 3, has_doi = True, has_issn = True, section_count = 2\<rparr>"
  by code_simp

lemma sample_prose_features:
  "extract_features sample_prose
     = \<lparr>keyword_count = 0, citation_count = 0, has_doi = False, has_issn = False, section_count = 0\<rparr>"
  by code_simp

lemma sample_lengths:
  "length (py_strip sample_article) = 128" "length sample_article = 128"
  "length (py_strip sample_prose) = 122" "length sample_prose = 122"
  by code_simp+

lemma score_example_positive:
  "clamped_total \<lparr>keyword_count = 7, citation_count = 3, has_doi = True, has_issn = True, section_count = 2\<rparr> = 8016407336719483 / 18014398509481984"
proof -
  define f where "f = \<lparr>keyword_count = 7, citation_count = 3, has_doi = True, has_issn = True, section_count = 2\<rparr>"
  have "rnd (7) = of_int 7881299347898368 * 2 powi (2 - 52)"
    by (rule rnd_eqI) (simp_all add: power_int_minus)
  then have n_k: "rnd (7) = 7"
    by (simp add: power_int_minus)
  have "rnd (7 * (1080863910568919 / 72057594037927936)) = of_int 7566047373982433 * 2 powi (-4 - 52)"
    by (rule rnd_eqI) (simp_all add: power_int_minus)
  then have p_k: "rnd (7 * (1080863910568919 / 72057594037927936)) = 7566047373982433 / 72057594037927936"
    by (simp add: power_int_minus)
  have c_k: "keyword_contribution f = 7566047373982433 / 72057594037927936"
    unfolding keyword_contribution_def f_def feature_set.simps fmul_def of_nat_numeral of_nat_0 of_nat_1 n_k lit_0_015 p_k lit_0_3
    by simp
  have "rnd (3) = of_int 6755399441055744 * 2 powi (1 - 52)"
    by (rule rnd_eqI) (simp_all add: power_int_minus)
  then have n_c: "rnd (3) = 3"
    by (simp add: power_int_minus)
  have "rnd (3 * (5764607523034235 / 288230376151711744)) = of_int (if even (8646911284551352 :: int) then 8646911284551352 else 8646911284551352 + 1) * 2 powi (-5 - 52)"
    by (rule rnd_tieI) (simp_all add: power_int_minus)
  then have p_c: "rnd (3 * (5764607523034235 / 288230376151711744)) = 1080863910568919 / 18014398509481984"
    by (simp add: power_int_minus)
  have c_c: "citation_contribution f = 1080863910568919 / 18014398509481984"
    unfolding citation_contribution_def f_def feature_set.simps fmul_def of_nat_numeral of_nat_0 of_nat_1 n_c lit_0_02 p_c lit_0_3
    by simp
  have "rnd (2) = of_int 4503599627370496 * 2 powi (1 - 52)"
    by (rule rnd_eqI) (simp_all add: power_int_minus)
  then have n_s: "rnd (2) = 2"
    by (simp add: power_int_minus)
  have "rnd (2 * (5764607523034235 / 144115188075855872)) = of_int 5764607523034235 * 2 powi (-4 - 52)"
    by (rule rnd_eqI) (simp_all add: power_int_minus)
  then have p_s: "rnd (2 * (5764607523034235 / 144115188075855872)) = 5764607523034235 / 72057594037927936"
    by (simp add: power_int_minus)
  have c_s: "section_contribution f = 5764607523034235 / 72057594037927936"
    unfolding section_contribution_def f_def feature_set.simps fmul_def of_nat_numeral of_nat_0 of_nat_1 n_s lit_0_04 p_s lit_0_2
    by simp
  have b: "doi_bonus f = 3602879701896397 / 36028797018963968" "issn_bonus f = 3602879701896397 / 36028797018963968"
    unfolding doi_bonus_def issn_bonus_def f_def feature_set.simps lit_0_1 rnd_zero by simp_all
  have "rnd (7566047373982433 / 72057594037927936 + 1080863910568919 / 18014398509481984) = of_int (if even (5944751508129054 :: int) then 5944751508129054 else 5944751508129054 + 1) * 2 powi (-3 - 52)"
    by (rule rnd_tieI) (simp_all add: power_int_minus)
  then have s2: "rnd (7566047373982433 / 72057594037927936 + 1080863910568919 / 18014398509481984) = 2972375754064527 / 18014398509481984"
    by (simp add: power_int_minus)
  have "rnd (2972375754064527 / 18014398509481984 + 3602879701896397 / 36028797018963968) = of_int (if even (4773815605012725 :: int) then 4773815605012725 else 4773815605012725 + 1) * 2 powi (-2 - 52)"
    by (rule rnd_tieI) (simp_all add: power_int_minus)
  then have s3: "rnd (2972375754064527 / 18014398509481984 + 3602879701896397 / 36028797018963968) = 2386907802506363 / 9007199254740992"
    by (simp add: power_int_minus)
  have "rnd (2386907802506363 / 9007199254740992 + 3602879701896397 / 36028797018963968) = of_int (if even (6575255455960924 :: int) then 6575255455960924 else 6575255455960924 + 1) * 2 powi (-2 - 52)"
    by (rule rnd_tieI) (simp_all add: power_int_minus)
  then have s4: "rnd (2386907802506363 / 9007199254740992 + 3602879701896397 / 36028797018963968) = 1643813863990231 / 4503599627370496"
    by (simp add: power_int_minus)
  have "rnd (1643813863990231 / 4503599627370496 + 5764607523034235 / 72057594037927936) = of_int 8016407336719483 * 2 powi (-2 - 52)"
    by (rule rnd_eqI) (simp_all add: power_int_minus)
  then have s5: "rnd (1643813863990231 / 4503599627370496 + 5764607523034235 / 72057594037927936) = 8016407336719483 / 18014398509481984"
    by (simp add: power_int_minus)
  have "weighted_total f = 8016407336719483 / 18014398509481984"
    unfolding weighted_total_def c_k c_c c_s b fadd_def s2 s3 s4 s5 ..
  then show ?thesis
    unfolding f_def [symmetric] clamped_total_def rnd_one by simp
qed

lemma score_example_zero:
  "clamped_total \<lparr>keyword_count = 0, citation_count = 0, has_doi = False, has_issn = False, section_count = 0\<rparr> = 0"
proof -
  define f where "f = \<lparr>keyword_count = 0, citation_count = 0, has_doi = False, has_issn = False, section_count = 0\<rparr>"
  have n_k: "rnd (0) = 0" by (simp add: rnd_zero)
  have p_k: "rnd (0 * (1080863910568919 / 72057594037927936)) = 0" by (simp add: rnd_zero)
  have c_k: "keyword_contribution f = 0"
    unfolding keyword_contribution_def f_def feature_set.simps fmul_def of_nat_numeral of_nat_0 of_nat_1 n_k lit_0_015 p_k lit_0_3
    by simp
  have n_c: "rnd (0) = 0" by (simp add: rnd_zero)
  have p_c: "rnd (0 * (5764607523034235 / 288230376151711744)) = 0" by (simp add: rnd_zero)
  have c_c: "citation_contribution f = 0"
    unfolding citation_contribution_def f_def feature_set.simps fmul_def of_nat_numeral of_nat_0 of_nat_1 n_c lit_0_02 p_c lit_0_3
    by simp
  have n_s: "rnd (0) = 0" by (simp add: rnd_zero)
  have p_s: "rnd (0 * (5764607523034235 / 144115188075855872)) = 0" by (simp add: rnd_zero)
  have c_s: "section_contribution f = 0"
    unfolding section_contribution_def f_def feature_set.simps fmul_def of_nat_numeral of_nat_0 of_nat_1 n_s lit_0_04 p_s lit_0_2
    by simp
  have b: "doi_bonus f = 0" "issn_bonus f = 0"
    unfolding doi_bonus_def issn_bonus_def f_def feature_set.simps lit_0_1 rnd_zero by simp_all
  have s2: "rnd (0 + 0) = 0" by (simp add: rnd_zero)
  have s3: "rnd (0 + 0) = 0" by (simp add: rnd_zero)
  have s4: "rnd (0 + 0) = 0" by (simp add: rnd_zero)
  have s5: "rnd (0 + 0) = 0" by (simp add: rnd_zero)
  have "weighted_total f = 0"
    unfolding weighted_total_def c_k c_c c_s b fadd_def s2 s3 s4 s5 ..
  then show ?thesis
    unfolding f_def [symmetric] clamped_total_def rnd_one by simp
qed

lemma py_ssize_t_max_ge: "128 \<le> py_ssize_t_max"
  by (simp add: py_ssize_t_max_def)

theorem classify_threshold_witness:
  "100 \<le> length (py_strip sample_article) \<and> length sample_article \<le> py_ssize_t_max
   \<and> (\<exists>v. classify (Some sample_article) = Inr v \<and> is_scientific v
          \<and> confidence v = 8016407336719483 / 18014398509481984)
   \<and> 100 \<le> length (py_strip sample_prose) \<and> length sample_prose \<le> py_ssize_t_max
   \<and> (\<exists>v. classify (Some sample_prose) = Inr v \<and> \<not> is_scientific v \<and> confidence v = 0)"
proof -
  have a: "100 \<le> length (py_strip sample_article)" "length sample_article \<le> py_ssize_t_max"
    using py_ssize_t_max_ge by (simp_all add: sample_lengths)
  have p: "100 \<le> length (py_strip sample_prose)" "length sample_prose \<le> py_ssize_t_max"
    using py_ssize_t_max_ge by (simp_all add: sample_lengths)
  from classify_threshold [OF a] obtain v where
    v: "classify (Some sample_article) = Inr v"
      "calculate_confidence_score (extract_features sample_article) = Inr (confidence v)"
      "is_scientific v = (rnd (3 / 10) \<le> confidence v)"
    by blast
  from v(2) score_of_text [OF a(2)]
  have "confidence v = clamped_total (extract_features sample_article)" by simp
  then have cv: "confidence v = 8016407336719483 / 18014398509481984"
    unfolding sample_article_features score_example_positive .
  have sv: "is_scientific v" unfolding v(3) cv lit_0_3 by simp
  from classify_threshold [OF p] obtain u where
    u: "classify (Some sample_prose) = Inr u"
      "calculate_confidence_score (extract_features sample_prose) = Inr (confidence u)"
      "is_scientific u = (rnd (3 / 10) \<le> confidence u)"
    by blast
  from u(2) score_of_text [OF p(2)]
  have "confidence u = clamped_total (extract_features sample_prose)" by simp
  then have cu: "confidence u = 0"
    unfolding sample_prose_features score_example_zero .
  have su: "\<not> is_scientific u" unfolding u(3) cu lit_0_3 by simp
  from a p v(1) cv sv u(1) cu su show ?thesis by blast
qed

theorem classify_too_short_witness:
  "length (py_strip ''  abstract  '') < 100
   \<and> classify (Some ''  abstract  '') = Inr too_short_verdict"
proof -
  have short: "length (py_strip ''  abstract  '') < 100" by code_simp
  with classify_too_short [of "''  abstract  ''"] show ?thesis by blast
qed

section \<open>Frequency ranking\<close>

subsection \<open>The counter\<close>

lemma counter_add_keys:
  "map fst (counter_add acc w) = (if w \<in> set (map fst acc) then map fst acc else map fst acc @ [w])"
proof (induction acc)
  case Nil
  show ?case by simp
next
  case (Cons kc acc)
  obtain k c where kc: "kc = (k, c)" by (cases kc)
  show ?case
  proof (cases "k = w")
    case True
    then show ?thesis by (simp add: kc)
  next
    case False
    with Cons show ?thesis by (simp add: kc)
  qed
qed

lemma counter_add_lookup:
  "map_of (counter_add acc w) = (map_of acc)(w \<mapsto> (case map_of acc w of None \<Rightarrow> 1 | Some c \<Rightarrow> Suc c))"
  by (induction acc) (auto simp: fun_eq_iff)

lemma Counter_snoc: "Counter (ws @ [w]) = counter_add (Counter ws) w"
  by (simp add: Counter_def)

lemma Counter_keys_set: "set (map fst (Counter ws)) = set ws"
proof (induction ws rule: rev_induct)
  case Nil
  show ?case by (simp add: Counter_def)
next
  case (snoc w ws)
  then show ?case unfolding Counter_snoc counter_add_keys by auto
qed

lemma Counter_keys_distinct: "distinct (map fst (Counter ws))"
proof (induction ws rule: rev_induct)
  case Nil
  show ?case by (simp add: Counter_def)
next
  case (snoc w ws)
  then show ?case unfolding Counter_snoc counter_add_keys by auto
qed

lemma Counter_lookup:
  "map_of (Counter ws) w = (if w \<in> set ws then Some (count_list ws w) else None)"
proof (induction ws rule: rev_induct)
  case Nil
  show ?case by (simp add: Counter_def)
next
  case (snoc x ws)
  then show ?case unfolding Counter_snoc counter_add_lookup
    by (auto simp: count_list_0_iff)
qed

lemma Counter_counts: "(w, c) \<in> set (Counter ws) \<Longrightarrow> c = count_list ws w \<and> w \<in> set ws"
proof -
  assume "(w, c) \<in> set (Counter ws)"
  with Counter_keys_distinct [of ws] have "map_of (Counter ws) w = Some c" by simp
  then show ?thesis unfolding Counter_lookup by (simp split: if_splits)
qed

lemma first_index_snoc:
  "x \<in> set ws \<Longrightarrow> first_index (ws @ [w]) x = first_index ws x"
  "x \<in> set ws \<Longrightarrow> first_index ws x < length ws"
  "w \<notin> set ws \<Longrightarrow> first_index (ws @ [w]) w = length ws"
proof -
  show "x \<in> set ws \<Longrightarrow> first_index (ws @ [w]) x = first_index ws x"
    unfolding first_index_def by (subst takeWhile_append1 [where x = x]) auto
  show "x \<in> set ws \<Longrightarrow> first_index ws x < length ws"
    unfolding first_index_def by (induction ws) auto
  show "w \<notin> set ws \<Longrightarrow> first_index (ws @ [w]) w = length ws"
    unfolding first_index_def by (subst takeWhile_append2) auto
qed

lemma Counter_order:
  "sorted_wrt (\<lambda>a b. first_index ws (fst a) < first_index ws (fst b)) (Counter ws)"
proof (induction ws rule: rev_induct)
  case Nil
  show ?case by (simp add: Counter_def)
next
  case (snoc w ws)
  let ?R = "\<lambda>xs a b. first_index xs (fst a) < first_index xs (fst (b :: 'a \<times> nat))"
  have keys: "sorted_wrt (\<lambda>a b. first_index (ws @ [w]) a < first_index (ws @ [w]) b)
                (map fst (Counter (ws @ [w])))"
  proof -
    have old: "sorted_wrt (\<lambda>a b. first_index (ws @ [w]) a < first_index (ws @ [w]) b)
                (map fst (Counter ws))"
    proof -
      have "sorted_wrt (\<lambda>a b. first_index ws a < first_index ws b) (map fst (Counter ws))"
        using snoc by (simp add: sorted_wrt_map)
      then show ?thesis
        by (rule sorted_wrt_mono_rel [rotated])
           (simp add: first_index_snoc(1) Counter_keys_set [simplified])
    qed
    show ?thesis
    proof (cases "w \<in> set ws")
      case True
      then show ?thesis unfolding Counter_snoc counter_add_keys using old
        by (simp add: Counter_keys_set [simplified])
    next
      case False
      then have "\<forall>x \<in> set ws. first_index (ws @ [w]) x < first_index (ws @ [w]) w"
        by (simp add: first_index_snoc)
      with False show ?thesis unfolding Counter_snoc counter_add_keys using old
        by (simp add: Counter_keys_set [simplified] sorted_wrt_append)
    qed
  qed
  then show ?case by (simp add: sorted_wrt_map)
qed

subsection \<open>The stable sort\<close>

lemma insort_key_ranks:
  assumes "sorted_wrt (\<lambda>a b. f a < f b \<or> (f a = f b \<and> R a b)) ys" "\<forall>y \<in> set ys. R x y"
  shows "sorted_wrt (\<lambda>a b. f a < f b \<or> (f a = f b \<and> R a b)) (insort_key f x ys)"
  using assms
proof (induction ys)
  case Nil
  show ?case by simp
next
  case (Cons y ys)
  show ?case
  proof (cases "f x \<le> f y")
    case True
    have "f x < f z \<or> (f x = f z \<and> R x z)" if "z \<in> set (y # ys)" for z
    proof -
      have "f y \<le> f z" using Cons.prems(1) that by auto
      with True have "f x \<le> f z" by simp
      moreover have "R x z" using Cons.prems(2) that by blast
      ultimately show ?thesis by auto
    qed
    with True Cons.prems(1) show ?thesis by simp
  next
    case False
    then have "f y < f x" by simp
    moreover have "sorted_wrt (\<lambda>a b. f a < f b \<or> (f a = f b \<and> R a b)) (insort_key f x ys)"
      using Cons by simp
    ultimately show ?thesis using False Cons.prems(1) by (auto simp: set_insort_key)
  qed
qed

lemma sort_key_ranks:
  fixes f :: "'a \<Rightarrow> 'b :: linorder"
  assumes "sorted_wrt R xs"
  shows "sorted_wrt (\<lambda>a b. f a < f b \<or> (f a = f b \<and> R a b)) (sort_key f xs)"
  using assms
proof (induction xs)
  case Nil
  show ?case by simp
next
  case (Cons x xs)
  then have "sorted_wrt (\<lambda>a b. f a < f b \<or> (f a = f b \<and> R a b)) (sort_key f xs)"
    and "\<forall>y \<in> set (sort_key f xs). R x y"
    by simp_all
  then show ?case by (simp add: insort_key_ranks)
qed

subsection \<open>The ranking\<close>

lemma Counter_length: "length (Counter ws) = card (set ws)"
proof -
  have "length (Counter ws) = length (map fst (Counter ws))" by simp
  also have "\<dots> = card (set (map fst (Counter ws)))"
    using Counter_keys_distinct [of ws] by (simp only: distinct_card)
  finally show ?thesis unfolding Counter_keys_set .
qed

lemma ranking_sort: "ranking ws = sort_key (\<lambda>(w, c). - int c) (Counter ws)"
proof -
  have "card (set ws) \<le> length ws" by (rule card_length)
  then show ?thesis by (simp add: ranking_def most_common_def Counter_length)
qed

lemma most_common_ranking: "most_common (Counter ws) n = take (nat n) (ranking ws)"
  by (simp add: ranking_sort most_common_def)

lemma ranking_set: "set (ranking ws) = set (Counter ws)"
  by (simp add: ranking_sort)

lemma ranking_length: "length (ranking ws) = card (set ws)"
  by (simp add: ranking_sort Counter_length)

lemma ranking_keys:
  "distinct (map fst (ranking ws))" "set (map fst (ranking ws)) = set ws"
proof -
  have "mset (map fst (ranking ws)) = mset (map fst (Counter ws))"
    by (simp add: ranking_sort)
  then show "distinct (map fst (ranking ws))"
    using Counter_keys_distinct [of ws] by (metis mset_eq_imp_distinct_iff)
  show "set (map fst (ranking ws)) = set ws"
    using Counter_keys_set [of ws] by (simp add: ranking_set)
qed

lemma ranking_counts: "map snd (ranking ws) = map (count_list ws) (map fst (ranking ws))"
proof -
  have "snd e = count_list ws (fst e)" if "e \<in> set (ranking ws)" for e
    using that Counter_counts [of "fst e" "snd e" ws] by (simp add: ranking_set)
  then show ?thesis by simp
qed

lemma ranking_sorted: "sorted_wrt (ranks_before ws) (ranking ws)"
proof -
  let ?f = "\<lambda>(w, c). - int c"
  let ?R = "\<lambda>a b. first_index ws (fst a) < first_index ws (fst (b :: 'a \<times> nat))"
  have "sorted_wrt (\<lambda>a b. ?f a < ?f b \<or> (?f a = ?f b \<and> ?R a b)) (sort_key ?f (Counter ws))"
    using Counter_order [of ws] by (rule sort_key_ranks)
  then show ?thesis
    unfolding ranking_sort
    by (rule sorted_wrt_mono_rel [rotated]) (auto simp: ranks_before_def split: prod.splits)
qed

lemma calculate_word_frequency_ranking:
  "calculate_word_frequency self text top_n remove_stop_words
     = take (nat top_n) (ranking (remaining_tokens self text remove_stop_words))"
proof (cases "text = []")
  case True
  then show ?thesis
    by (simp add: calculate_word_frequency_def remaining_tokens_def tokenize_words_def
          remove_stopwords_def ranking_def most_common_def Counter_def)
next
  case False
  then show ?thesis
    by (simp add: calculate_word_frequency_def remaining_tokens_def Let_def most_common_ranking)
qed

lemma sample_tokens:
  "tokenize_words ''Data data DATA insight insight''
     = [''data'', ''data'', ''data'', ''insight'', ''insight'']"
  by code_simp

lemma sample_ranking:
  "most_common (Counter [''data'', ''data'', ''data'', ''insight'', ''insight'']) 10
     = [(''data'', 3), (''insight'', 2)]"
  by code_simp

text \<open>
  C6. The frequency analysis returns the first \<open>top_n\<close> entries (10 by default) of
  the ranking of the remaining tokens. The ranking holds every distinct remaining token
  once, with its number of occurrences, ordered by descending count and, among equal
  counts, by first appearance in the token stream. For the text
  \<open>Data data DATA insight insight\<close> without stop word removal the result is
  \<open>data\<close> with 3 and then \<open>insight\<close> with 2.
\<close>

theorem word_frequency_ranking:
  "calculate_word_frequency self text top_n remove_stop_words
     = take (nat top_n) (ranking (remaining_tokens self text remove_stop_words))
   \<and> calculate_word_frequency_defaults self text
       = take 10 (ranking (remaining_tokens self text True))
   \<and> length (calculate_word_frequency self text top_n remove_stop_words)
       = min (nat top_n) (card (set (remaining_tokens self text remove_stop_words)))
   \<and> distinct (map fst (ranking (remaining_tokens self text remove_stop_words)))
   \<and> set (map fst (ranking (remaining_tokens self text remove_stop_words)))
       = set (remaining_tokens self text remove_stop_words)
   \<and> map snd (ranking (remaining_tokens self text remove_stop_words))
       = map (count_list (remaining_tokens self text remove_stop_words))
           (map fst (ranking (remaining_tokens self text remove_stop_words)))
   \<and> sorted_wrt (ranks_before (remaining_tokens self text remove_stop_words))
        (ranking (remaining_tokens self text remove_stop_words))
   \<and> calculate_word_frequency self ''Data data DATA insight insight'' 10 False
       = [(''data'', 3), (''insight'', 2)]"
proof (intro conjI)
  show "calculate_word_frequency self text top_n remove_stop_words
     = take (nat top_n) (ranking (remaining_tokens self text remove_stop_words))"
    by (rule calculate_word_frequency_ranking)
  show "calculate_word_frequency_defaults self text
       = take 10 (ranking (remaining_tokens self text True))"
    by (simp add: calculate_word_frequency_defaults_def calculate_word_frequency_ranking)
  show "length (calculate_word_frequency self text top_n remove_stop_words)
       = min (nat top_n) (card (set (remaining_tokens self text remove_stop_words)))"
    by (simp add: calculate_word_frequency_ranking ranking_length min.commute)
  show "calculate_word_frequency self ''Data data DATA insight insight'' 10 False
       = [(''data'', 3), (''insight'', 2)]"
    by (simp add: calculate_word_frequency_def sample_tokens sample_ranking)
qed (rule ranking_keys ranking_counts ranking_sorted)+

section \<open>DOI and ISSN detection\<close>

subsection \<open>The matcher finds a match exactly when the pattern has one\<close>

lemma match_here_matches: "(match_here pat prev s \<noteq> None) = matches pat prev s"
  by (induction pat prev s rule: match_here.induct) (auto split: option.splits)

lemma after_simps:
  "after prev [] = prev" "after prev (c # w) = after (Some c) w" "after prev (w @ [c]) = Some c"
  "after (after prev u) w = after prev (u @ w)"
  by (auto simp: after_def)

lemma re_search_iff:
  "re_search pat prev s = (\<exists>pre suf. s = pre @ suf \<and> matches pat (after prev pre) suf)"
proof (induction s arbitrary: prev)
  case Nil
  show ?case unfolding re_search.simps match_here_matches by (simp add: after_simps)
next
  case (Cons c cs)
  show ?case
  proof
    assume "re_search pat prev (c # cs)"
    then consider "matches pat prev (c # cs)" | "re_search pat (Some c) cs"
      unfolding re_search.simps match_here_matches by blast
    then show "\<exists>pre suf. c # cs = pre @ suf \<and> matches pat (after prev pre) suf"
    proof cases
      case 1
      then have "c # cs = [] @ (c # cs) \<and> matches pat (after prev []) (c # cs)"
        by (simp add: after_simps)
      then show ?thesis by blast
    next
      case 2
      with Cons obtain pre suf where "cs = pre @ suf" "matches pat (after (Some c) pre) suf"
        by blast
      then have "c # cs = (c # pre) @ suf \<and> matches pat (after prev (c # pre)) suf"
        by (simp add: after_simps)
      then show ?thesis by blast
    qed
  next
    assume "\<exists>pre suf. c # cs = pre @ suf \<and> matches pat (after prev pre) suf"
    then obtain pre suf where ps: "c # cs = pre @ suf" "matches pat (after prev pre) suf" by blast
    show "re_search pat prev (c # cs)"
    proof (cases pre)
      case Nil
      with ps have "matches pat prev (c # cs)" by (simp add: after_simps)
      then show ?thesis unfolding re_search.simps match_here_matches by simp
    next
      case (Cons d pre')
      with ps have "cs = pre' @ suf" "matches pat (after (Some c) pre') suf"
        by (simp_all add: after_simps)
      then have "re_search pat (Some c) cs" unfolding Cons.IH by blast
      then show ?thesis by simp
    qed
  qed
qed

subsection \<open>Reading a pattern item by item\<close>

lemma matches_one:
  "matches (One p # r) prev s = (\<exists>c rest. s = c # rest \<and> p c \<and> matches r (Some c) rest)"
  by (cases s) auto

lemma matches_opt:
  "matches (Opt p # r) prev s = (matches (One p # r) prev s \<or> matches r prev s)"
  by (cases s) auto

lemma matches_star:
  "matches (Star p # r) prev s
     = (\<exists>w rest. s = w @ rest \<and> list_all p w \<and> matches r (after prev w) rest)"
proof (induction s arbitrary: prev)
  case Nil
  show ?case by (simp add: after_simps)
next
  case (Cons c cs)
  show ?case
  proof
    assume "matches (Star p # r) prev (c # cs)"
    then consider "p c" "matches (Star p # r) (Some c) cs" | "matches r prev (c # cs)" by auto
    then show "\<exists>w rest. c # cs = w @ rest \<and> list_all p w \<and> matches r (after prev w) rest"
    proof cases
      case 1
      from 1(2) obtain w rest where "cs = w @ rest" "list_all p w" "matches r (after (Some c) w) rest"
        unfolding Cons.IH by blast
      with 1(1) have "c # cs = (c # w) @ rest \<and> list_all p (c # w) \<and> matches r (after prev (c # w)) rest"
        by (simp add: after_simps)
      then show ?thesis by blast
    next
      case 2
      then have "c # cs = [] @ (c # cs) \<and> list_all p [] \<and> matches r (after prev []) (c # cs)"
        by (simp add: after_simps)
      then show ?thesis by blast
    qed
  next
    assume "\<exists>w rest. c # cs = w @ rest \<and> list_all p w \<and> matches r (after prev w) rest"
    then obtain w rest where wr: "c # cs = w @ rest" "list_all p w" "matches r (after prev w) rest"
      by blast
    show "matches (Star p # r) prev (c # cs)"
    proof (cases w)
      case Nil
      with wr have "matches r prev (c # cs)" by (simp add: after_simps)
      then show ?thesis by simp
    next
      case (Cons d w')
      with wr have "p c" "cs = w' @ rest" "list_all p w'" "matches r (after (Some c) w') rest"
        by (simp_all add: after_simps)
      then have "p c \<and> matches (Star p # r) (Some c) cs" unfolding Cons.IH by blast
      then show ?thesis by simp
    qed
  qed
qed

lemma matches_plus:
  "matches (plus p @ r) prev s
     = (\<exists>w rest. s = w @ rest \<and> w \<noteq> [] \<and> list_all p w \<and> matches r (after prev w) rest)"
proof
  assume "matches (plus p @ r) prev s"
  then obtain c s' where c: "s = c # s'" "p c" "matches (Star p # r) (Some c) s'"
    by (auto simp: plus_def matches_one)
  from c(3) obtain w rest where "s' = w @ rest" "list_all p w" "matches r (after (Some c) w) rest"
    unfolding matches_star by blast
  with c have "s = (c # w) @ rest \<and> c # w \<noteq> [] \<and> list_all p (c # w) \<and> matches r (after prev (c # w)) rest"
    by (simp add: after_simps)
  then show "\<exists>w rest. s = w @ rest \<and> w \<noteq> [] \<and> list_all p w \<and> matches r (after prev w) rest"
    by blast
next
  assume "\<exists>w rest. s = w @ rest \<and> w \<noteq> [] \<and> list_all p w \<and> matches r (after prev w) rest"
  then obtain w rest where wr: "s = w @ rest" "w \<noteq> []" "list_all p w" "matches r (after prev w) rest"
    by blast
  then obtain c w' where w: "w = c # w'" by (cases w) auto
  with wr have "p c" and "\<exists>u rest'. w' @ rest = u @ rest' \<and> list_all p u \<and> matches r (after (Some c) u) rest'"
    by (auto simp: after_simps)
  then have "p c \<and> matches (Star p # r) (Some c) (w' @ rest)" unfolding matches_star by blast
  then show "matches (plus p @ r) prev s" by (simp add: plus_def wr(1) w)
qed

lemma matches_times:
  "matches (times k p @ r) prev s
     = (\<exists>w rest. s = w @ rest \<and> length w = k \<and> list_all p w \<and> matches r (after prev w) rest)"
proof (induction k arbitrary: prev s)
  case 0
  show ?case by (simp add: times_def after_simps)
next
  case (Suc k)
  have t: "times (Suc k) p @ r = One p # (times k p @ r)" by (simp add: times_def)
  show ?case
  proof
    assume "matches (times (Suc k) p @ r) prev s"
    then obtain c s' where c: "s = c # s'" "p c" "matches (times k p @ r) (Some c) s'"
      unfolding t matches_one by blast
    from c(3) obtain w rest where "s' = w @ rest" "length w = k" "list_all p w"
      "matches r (after (Some c) w) rest"
      unfolding Suc.IH by blast
    with c have "s = (c # w) @ rest \<and> length (c # w) = Suc k \<and> list_all p (c # w)
        \<and> matches r (after prev (c # w)) rest"
      by (simp add: after_simps)
    then show "\<exists>w rest. s = w @ rest \<and> length w = Suc k \<and> list_all p w \<and> matches r (after prev w) rest"
      by blast
  next
    assume "\<exists>w rest. s = w @ rest \<and> length w = Suc k \<and> list_all p w \<and> matches r (after prev w) rest"
    then obtain w rest where wr: "s = w @ rest" "length w = Suc k" "list_all p w"
      "matches r (after prev w) rest" by blast
    then obtain c w' where w: "w = c # w'" by (cases w) auto
    with wr have "p c" and "\<exists>u rest'. w' @ rest = u @ rest' \<and> length u = k \<and> list_all p u
        \<and> matches r (after (Some c) u) rest'"
      by (auto simp: after_simps)
    then have "p c \<and> matches (times k p @ r) (Some c) (w' @ rest)" unfolding Suc.IH by blast
    then show "matches (times (Suc k) p @ r) prev s" unfolding t by (simp add: wr(1) w)
  qed
qed

lemma matches_lits:
  "matches (lits l @ r) prev s = (\<exists>rest. s = l @ rest \<and> matches r (after prev l) rest)"
proof (induction l arbitrary: prev s)
  case Nil
  show ?case by (simp add: lits_def after_simps)
next
  case (Cons c l)
  have t: "lits (c # l) @ r = One (lit c) # (lits l @ r)" by (simp add: lits_def)
  show ?case unfolding t matches_one Cons.IH by (auto simp: lit_def after_simps)
qed

subsection \<open>The two patterns\<close>

lemma matches_doi_pattern: "matches doi_pattern prev s = doi_form s"
proof -
  have shape: "doi_pattern = lits ''doi:'' @ (Star is_space # (lits ''10.'' @ (plus is_digit @ [])))"
    by (simp add: doi_pattern_def)
  show ?thesis
    unfolding shape matches_lits matches_star matches_plus matches.simps(1) doi_form_def
    by (simp only: simp_thms append_assoc) blast
qed

lemma matches_issn_tail:
  "matches (times 4 is_digit @ (Opt (lit CHR ''-'') # (times 3 is_digit
      @ [One (\<lambda>c. is_digit c \<or> c = CHR ''x'' \<or> c = CHR ''X'')]))) prev s = issn_tail s"
proof -
  have hyphen: "matches (Opt (lit CHR ''-'') # r) p u
        = (\<exists>h rest. u = h @ rest \<and> (h = [] \<or> h = ''-'') \<and> matches r (after p h) rest)" for r p u
  proof
    assume "matches (Opt (lit CHR ''-'') # r) p u"
    then consider rest where "u = CHR ''-'' # rest" "matches r (Some CHR ''-'') rest" | "matches r p u"
      unfolding matches_opt matches_one by (auto simp: lit_def)
    then show "\<exists>h rest. u = h @ rest \<and> (h = [] \<or> h = ''-'') \<and> matches r (after p h) rest"
    proof cases
      case 1
      then have "u = ''-'' @ rest \<and> (''-'' = [] \<or> ''-'' = ''-'') \<and> matches r (after p ''-'') rest"
        by (simp add: after_def)
      then show ?thesis by blast
    next
      case 2
      then have "u = [] @ u \<and> ([] = [] \<or> [] = ''-'') \<and> matches r (after p []) u"
        by (simp add: after_def)
      then show ?thesis by blast
    qed
  next
    assume "\<exists>h rest. u = h @ rest \<and> (h = [] \<or> h = ''-'') \<and> matches r (after p h) rest"
    then obtain h rest where hr: "u = h @ rest" "h = [] \<or> h = ''-''" "matches r (after p h) rest"
      by blast
    from hr(2) show "matches (Opt (lit CHR ''-'') # r) p u"
    proof
      assume "h = []"
      with hr show ?thesis unfolding matches_opt by (simp add: after_def)
    next
      assume "h = ''-''"
      with hr show ?thesis unfolding matches_opt matches_one by (simp add: after_def lit_def)
    qed
  qed
  show ?thesis
    unfolding matches_times hyphen matches_one matches.simps(1) issn_tail_def
    by (simp only: simp_thms append_assoc) blast
qed

lemma matches_issn_pattern: "matches issn_pattern prev s = issn_form s"
proof -
  have shape: "issn_pattern = lits ''issn'' @ (plus (\<lambda>c. c = CHR '':'' \<or> is_space c)
      @ (times 4 is_digit @ (Opt (lit CHR ''-'') # (times 3 is_digit
      @ [One (\<lambda>c. is_digit c \<or> c = CHR ''x'' \<or> c = CHR ''X'')]))))"
    by (simp add: issn_pattern_def)
  show ?thesis
    unfolding shape matches_lits matches_plus matches_issn_tail issn_form_def
    by blast
qed

lemma has_doi_iff: "has_doi (extract_features t) = contains_form doi_form (py_lower t)"
  by (simp add: extract_features_def Let_def re_search_iff matches_doi_pattern contains_form_def)

lemma has_issn_iff: "has_issn (extract_features t) = contains_form issn_form (py_lower t)"
  by (simp add: extract_features_def Let_def re_search_iff matches_issn_pattern contains_form_def)

text \<open>
  C9, as the sources have it. \<open>has_doi\<close> is true exactly when the lower-cased text
  contains \<open>doi:\<close>, then any white space (none is allowed), then \<open>10.\<close> and at least
  one digit. \<open>has_issn\<close> is true exactly when the lower-cased text contains \<open>issn\<close>,
  then at least one colon or white space character, then four digits, an optional
  hyphen, three digits and a final digit or \<open>x\<close> or \<open>X\<close>.
\<close>

theorem doi_issn_detection:
  "has_doi (extract_features t)
     = (\<exists>pre w ds rest. py_lower t = pre @ ''doi:'' @ w @ ''10.'' @ ds @ rest
          \<and> list_all is_space w \<and> ds \<noteq> [] \<and> list_all is_digit ds)
   \<and> has_issn (extract_features t)
     = (\<exists>pre sep d4 h d3 c rest. py_lower t = pre @ ''issn'' @ sep @ d4 @ h @ d3 @ c # rest
          \<and> sep \<noteq> [] \<and> list_all (\<lambda>c. c = CHR '':'' \<or> is_space c) sep
          \<and> length d4 = 4 \<and> list_all is_digit d4 \<and> (h = [] \<or> h = ''-'')
          \<and> length d3 = 3 \<and> list_all is_digit d3
          \<and> (is_digit c \<or> c = CHR ''x'' \<or> c = CHR ''X''))
   \<and> has_doi (extract_features t) = contains_form doi_form (py_lower t)
   \<and> has_issn (extract_features t) = contains_form issn_form (py_lower t)"
proof (intro conjI)
  show "has_doi (extract_features t)
     = (\<exists>pre w ds rest. py_lower t = pre @ ''doi:'' @ w @ ''10.'' @ ds @ rest
          \<and> list_all is_space w \<and> ds \<noteq> [] \<and> list_all is_digit ds)"
    unfolding has_doi_iff contains_form_def doi_form_def by blast
  show "has_issn (extract_features t)
     = (\<exists>pre sep d4 h d3 c rest. py_lower t = pre @ ''issn'' @ sep @ d4 @ h @ d3 @ c # rest
          \<and> sep \<noteq> [] \<and> list_all (\<lambda>c. c = CHR '':'' \<or> is_space c) sep
          \<and> length d4 = 4 \<and> list_all is_digit d4 \<and> (h = [] \<or> h = ''-'')
          \<and> length d3 = 3 \<and> list_all is_digit d3
          \<and> (is_digit c \<or> c = CHR ''x'' \<or> c = CHR ''X''))"
    unfolding has_issn_iff contains_form_def issn_form_def issn_tail_def
    by blast
qed (rule has_doi_iff has_issn_iff)+

lemma lowered_samples:
  "py_lower ''issn12345678'' = ''issn12345678''"
  "py_lower ''DOI:10.5'' = ''doi:10.5''"
  "py_lower ''ISSN: 1234-567X'' = ''issn: 1234-567x''"
  by code_simp+

lemma digit_samples:
  "list_all is_digit ''1234''" "list_all is_digit ''567''" "list_all is_digit ''5''"
  "is_digit CHR ''8''" "list_all (\<lambda>c. c = CHR '':'' \<or> is_space c) '': ''"
  by (simp_all add: is_digit_def is_space_def)

theorem doi_issn_detection_witness:
  "has_doi (extract_features ''DOI:10.5'') \<and> has_issn (extract_features ''ISSN: 1234-567X'')"
proof -
  note inst_doi = doi_issn_detection [of "''DOI:10.5''", unfolded lowered_samples]
  note inst_issn = doi_issn_detection [of "''ISSN: 1234-567X''", unfolded lowered_samples]
  have "''doi:10.5'' = [] @ ''doi:'' @ [] @ ''10.'' @ ''5'' @ []
          \<and> list_all is_space [] \<and> ''5'' \<noteq> [] \<and> list_all is_digit ''5''"
    using digit_samples by simp
  then have "\<exists>pre w ds rest. ''doi:10.5'' = pre @ ''doi:'' @ w @ ''10.'' @ ds @ rest
          \<and> list_all is_space w \<and> ds \<noteq> [] \<and> list_all is_digit ds"
    by blast
  with inst_doi have d: "has_doi (extract_features ''DOI:10.5'')" by blast
  have "''issn: 1234-567x'' = [] @ ''issn'' @ '': '' @ ''1234'' @ ''-'' @ ''567'' @ CHR ''x'' # []
          \<and> '': '' \<noteq> [] \<and> list_all (\<lambda>c. c = CHR '':'' \<or> is_space c) '': ''
          \<and> length ''1234'' = 4 \<and> list_all is_digit ''1234'' \<and> (''-'' = [] \<or> ''-'' = ''-'')
          \<and> length ''567'' = 3 \<and> list_all is_digit ''567''
          \<and> (is_digit CHR ''x'' \<or> CHR ''x'' = CHR ''x'' \<or> CHR ''x'' = CHR ''X'')"
    using digit_samples by simp
  then have "\<exists>pre sep d4 h d3 c rest. ''issn: 1234-567x'' = pre @ ''issn'' @ sep @ d4 @ h @ d3 @ c # rest
          \<and> sep \<noteq> [] \<and> list_all (\<lambda>c. c = CHR '':'' \<or> is_space c) sep
          \<and> length d4 = 4 \<and> list_all is_digit d4 \<and> (h = [] \<or> h = ''-'')
          \<and> length d3 = 3 \<and> list_all is_digit d3
          \<and> (is_digit c \<or> c = CHR ''x'' \<or> c = CHR ''X'')"
    by blast
  with inst_issn have i: "has_issn (extract_features ''ISSN: 1234-567X'')" by blast
  from d i show ?thesis ..
qed

text \<open>
  With the colon or white space after \<open>issn\<close> optional the shape is present in
  \<open>issn12345678\<close>, where the detection finds no ISSN.
\<close>

theorem issn_optional_separator_counterexample:
  "contains_form issn_form_optional_separator (py_lower ''issn12345678'')
   \<and> \<not> has_issn (extract_features ''issn12345678'')"
proof
  have "''12345678'' = ''1234'' @ [] @ ''567'' @ CHR ''8'' # []
      \<and> length ''1234'' = 4 \<and> list_all is_digit ''1234'' \<and> ([] = [] \<or> [] = ''-'')
      \<and> length ''567'' = 3 \<and> list_all is_digit ''567''
      \<and> (is_digit CHR ''8'' \<or> CHR ''8'' = CHR ''x'' \<or> CHR ''8'' = CHR ''X'')"
    using digit_samples by simp
  then have tail: "issn_tail ''12345678''" unfolding issn_tail_def by blast
  have "''issn12345678'' = ''issn'' @ [] @ ''12345678''
      \<and> list_all (\<lambda>c. c = CHR '':'' \<or> is_space c) [] \<and> issn_tail ''12345678''"
    using tail by simp
  then have "issn_form_optional_separator ''issn12345678''"
    unfolding issn_form_optional_separator_def by blast
  then have "''issn12345678'' = [] @ ''issn12345678'' \<and> issn_form_optional_separator ''issn12345678''"
    by simp
  then show "contains_form issn_form_optional_separator (py_lower ''issn12345678'')"
    unfolding contains_form_def lowered_samples by blast
  show "\<not> has_issn (extract_features ''issn12345678'')"
    by code_simp
qed

section \<open>Paragraph segmentation\<close>

subsection \<open>What the separator pattern matches\<close>

lemma lit_apply: "lit c x = (x = c)"
  by (simp add: lit_def)

lemma is_space_newline: "is_space newline"
  by (simp add: newline_def is_space_def)

lemma gap_newline: "gap (newline # r) \<noteq> None"
  by (simp add: is_space_newline split: option.splits)

lemma gap_bounds: "gap cs = Some n \<Longrightarrow> 0 < n \<and> n \<le> length cs"
proof (induction cs arbitrary: n)
  case Nil
  then show ?case by simp
next
  case (Cons c cs)
  then show ?case by (auto split: if_splits option.splits)
qed

lemma star_newline_none:
  "gap cs = None \<Longrightarrow> match_here [Star (lit newline)] p cs = Some 0"
proof (cases cs)
  case Nil
  then show ?thesis by simp
next
  case (Cons d ds)
  assume "gap cs = None"
  with Cons gap_newline [of ds] have "d \<noteq> newline" by auto
  then have "\<not> lit newline d" by (simp add: lit_def)
  with Cons show ?thesis by simp
qed

lemma match_gap:
  "match_here [Star is_space, One (lit newline), Star (lit newline)] p cs = gap cs"
proof (induction cs arbitrary: p)
  case Nil
  show ?case by simp
next
  case (Cons c cs)
  have lc: "lit newline c = (c = newline)" by (simp add: lit_def)
  show ?case
  proof (cases "is_space c")
    case False
    with is_space_newline have "c \<noteq> newline" by auto
    with False show ?thesis by (simp add: lc)
  next
    case True
    show ?thesis
    proof (cases "gap cs")
      case (Some n)
      with True Cons [of "Some c"] show ?thesis by simp
    next
      case None
      with True Cons [of "Some c"] show ?thesis
        by (simp add: lc star_newline_none [OF None])
    qed
  qed
qed

lemma paragraph_break_shape:
  "paragraph_break = One (lit newline) # [Star is_space, One (lit newline), Star (lit newline)]"
  by (simp add: paragraph_break_def plus_def newline_def)

lemma match_paragraph_break:
  "match_here paragraph_break prev [] = None"
  "match_here paragraph_break prev (c # cs) = (if c = newline then map_option Suc (gap cs) else None)"
proof -
  have lc: "lit newline c = (c = newline)" by (simp add: lit_def)
  show "match_here paragraph_break prev [] = None"
    unfolding paragraph_break_shape by simp
  show "match_here paragraph_break prev (c # cs) = (if c = newline then map_option Suc (gap cs) else None)"
    unfolding paragraph_break_shape by (simp add: match_gap lc)
qed

subsection \<open>The pieces of the split are the blocks\<close>

lemma split_scan_skip:
  "split_scan paragraph_break k cur prev s = split_scan paragraph_break 0 cur prev' (drop k s)"
proof (induction s arbitrary: k prev prev')
  case Nil
  show ?case by simp
next
  case (Cons c cs)
  show ?case
  proof (cases k)
    case 0
    then show ?thesis by (simp add: match_paragraph_break)
  next
    case (Suc j)
    with Cons [of j "Some c" prev'] show ?thesis by simp
  qed
qed

lemma blocks_nonempty: "blocks s \<noteq> []"
  by (subst blocks.simps) (simp split: option.splits)

lemma blocks_Nil: "blocks [] = [[]]"
  by (subst blocks.simps) simp

lemma blocks_break:
  "gap cs = Some n \<Longrightarrow> blocks (newline # cs) = [] # blocks (drop n cs)"
  by (subst blocks.simps) simp

lemma blocks_step:
  assumes "(if c = newline then gap cs else None) = None"
  shows "blocks (c # cs) = (c # hd (blocks cs)) # tl (blocks cs)"
proof (cases "first_break cs")
  case None
  with assms have "first_break (c # cs) = None" by simp
  then have "blocks (c # cs) = [c # cs]" by (subst blocks.simps) simp
  moreover from None have "blocks cs = [cs]" by (subst blocks.simps) simp
  ultimately show ?thesis by simp
next
  case (Some b)
  obtain i n where b: "b = (i, n)" by (cases b)
  with Some assms have "first_break (c # cs) = Some (Suc i, n)" by simp
  then have "blocks (c # cs) = take (Suc i) (c # cs) # blocks (drop (Suc i + n) (c # cs))"
    by (subst blocks.simps) simp
  moreover from Some b have "blocks cs = take i cs # blocks (drop (i + n) cs)"
    by (subst blocks.simps) simp
  ultimately show ?thesis by simp
qed

lemma split_scan_blocks:
  "split_scan paragraph_break 0 cur prev s = (rev cur @ hd (blocks s)) # tl (blocks s)"
proof (induction s arbitrary: cur prev rule: length_induct)
  case (1 s)
  show ?case
  proof (cases s)
    case Nil
    then show ?thesis by (simp add: blocks_Nil)
  next
    case (Cons c cs)
    show ?thesis
    proof (cases "if c = newline then gap cs else None")
      case None
      have "length cs < length s" using Cons by simp
      with 1 have ih: "split_scan paragraph_break 0 (c # cur) (Some c) cs
          = (rev (c # cur) @ hd (blocks cs)) # tl (blocks cs)" by blast
      have m: "match_here paragraph_break prev (c # cs) = None"
        using None by (simp add: match_paragraph_break split: if_splits)
      have "split_scan paragraph_break 0 cur prev s = split_scan paragraph_break 0 (c # cur) (Some c) cs"
        by (simp add: Cons m)
      then show ?thesis unfolding ih Cons blocks_step [OF None] by simp
    next
      case (Some n)
      then have c: "c = newline" and g: "gap cs = Some n" by (simp_all split: if_splits)
      have "length (drop n cs) < length s" using Cons by simp
      with 1 have ih: "split_scan paragraph_break 0 [] (Some c) (drop n cs)
          = (rev [] @ hd (blocks (drop n cs))) # tl (blocks (drop n cs))" by blast
      have m: "match_here paragraph_break prev (c # cs) = Some (Suc n)"
        using c g by (simp add: match_paragraph_break)
      have "split_scan paragraph_break 0 cur prev s = rev cur # split_scan paragraph_break n [] (Some c) cs"
        by (simp add: Cons m)
      also have "\<dots> = rev cur # split_scan paragraph_break 0 [] (Some c) (drop n cs)"
        by (simp add: split_scan_skip [of n "[]" "Some c" cs "Some c"])
      also have "\<dots> = rev cur # blocks (drop n cs)"
        unfolding ih using blocks_nonempty [of "drop n cs"] by simp
      finally show ?thesis unfolding Cons c blocks_break [OF g] by simp
    qed
  qed
qed

lemma re_split_blocks: "re_split paragraph_break s = blocks s"
  unfolding re_split_def split_scan_blocks using blocks_nonempty [of s] by simp

subsection \<open>Splitting into tokens and joining them\<close>

lemma split_run_tokens:
  "list_all (\<lambda>c. \<not> is_space c) cur \<Longrightarrow> list_all is_token (split_run s cur)"
proof (induction s arbitrary: cur)
  case Nil
  then show ?case by (simp add: is_token_def)
next
  case (Cons c cs)
  then show ?case by (simp add: is_token_def)
qed

lemma py_split_tokens: "list_all is_token (py_split s)"
  unfolding py_split_def by (rule split_run_tokens) simp

lemma split_run_word:
  "list_all (\<lambda>c. \<not> is_space c) w \<Longrightarrow> split_run (w @ rest) cur = split_run rest (rev w @ cur)"
  by (induction w arbitrary: cur) simp_all

lemma is_space_blank: "is_space CHR '' ''"
  by (simp add: is_space_def)

lemma py_split_join:
  "list_all is_token ws \<Longrightarrow> py_split (py_join '' '' ws) = ws"
proof (induction "'' ''" ws rule: py_join.induct)
  case 1
  show ?case by (simp add: py_split_def)
next
  case (2 x)
  then have "list_all (\<lambda>c. \<not> is_space c) x" "x \<noteq> []" by (simp_all add: is_token_def)
  then show ?case
    using split_run_word [of x "[]" "[]"] by (simp add: py_split_def)
next
  case (3 x y ys)
  then have x: "list_all (\<lambda>c. \<not> is_space c) x" "x \<noteq> []" by (simp_all add: is_token_def)
  from 3 have ih: "split_run (py_join '' '' (y # ys)) [] = y # ys" by (simp add: py_split_def)
  have "py_split (py_join '' '' (x # y # ys))
      = split_run (x @ (CHR '' '' # py_join '' '' (y # ys))) []"
    by (simp add: py_split_def)
  also have "\<dots> = split_run (CHR '' '' # py_join '' '' (y # ys)) (rev x)"
    using split_run_word [OF x(1)] by simp
  also have "\<dots> = x # split_run (py_join '' '' (y # ys)) []"
    using x(2) by (simp add: is_space_blank)
  finally show ?case unfolding ih .
qed

lemma py_strip_id:
  "s \<noteq> [] \<Longrightarrow> \<not> is_space (hd s) \<Longrightarrow> \<not> is_space (last s) \<Longrightarrow> py_strip s = s"
proof -
  assume s: "s \<noteq> []" and h: "\<not> is_space (hd s)" and l: "\<not> is_space (last s)"
  from s h have "dropWhile is_space s = s" by (cases s) simp_all
  moreover from s l have "dropWhile is_space (rev s) = rev s"
    by (cases "rev s") (simp_all add: last_rev [symmetric] hd_rev)
  ultimately show ?thesis by (simp add: py_strip_def)
qed

lemma py_join_ends_conj:
  "ws \<noteq> [] \<Longrightarrow> list_all (\<lambda>w. w \<noteq> []) ws \<Longrightarrow>
   py_join sep ws \<noteq> [] \<and> hd (py_join sep ws) = hd (hd ws)
   \<and> last (py_join sep ws) = last (last ws)"
proof (induction sep ws rule: py_join.induct)
  case (1 sep)
  then show ?case by simp
next
  case (2 sep x)
  then show ?case by simp
next
  case (3 sep x y ys)
  then show ?case by simp
qed

lemma py_join_ends:
  assumes "ws \<noteq> []" "list_all (\<lambda>w. w \<noteq> []) ws"
  shows "py_join sep ws \<noteq> []" "hd (py_join sep ws) = hd (hd ws)"
    "last (py_join sep ws) = last (last ws)"
  using py_join_ends_conj [OF assms] by simp_all

lemma token_ends: "is_token w \<Longrightarrow> \<not> is_space (hd w) \<and> \<not> is_space (last w)"
  by (cases w) (auto simp: is_token_def list_all_iff)

lemma tokens_nonempty: "list_all is_token ws \<Longrightarrow> list_all (\<lambda>w. w \<noteq> []) ws"
  by (induction ws) (simp_all add: is_token_def)

lemma py_strip_join:
  assumes "list_all is_token ws"
  shows "py_strip (py_join '' '' ws) = py_join '' '' ws"
proof (cases ws)
  case Nil
  then show ?thesis by (simp add: py_strip_def)
next
  case (Cons x xs)
  then have ne: "ws \<noteq> []" by simp
  note ends = py_join_ends [OF ne tokens_nonempty [OF assms], of "'' ''"]
  have "is_token (hd ws)" "is_token (last ws)"
    using assms ne by (simp_all add: list_all_iff)
  with token_ends have "\<not> is_space (hd (hd ws))" "\<not> is_space (last (last ws))" by blast+
  then show ?thesis using ends by (intro py_strip_id) simp_all
qed

lemma collapse_clean:
  "py_strip (collapse b) = collapse b" "py_split (collapse b) = py_split b"
  unfolding collapse_def
  by (simp_all add: py_strip_join py_split_join py_split_tokens)

subsection \<open>The segmentation is the one described\<close>

lemma clean_paragraphs_eq:
  "clean_paragraphs cleaned ps
     = cleaned @ map collapse (filter (\<lambda>b. 3 \<le> length (py_split b)) ps)"
proof (induction ps arbitrary: cleaned)
  case Nil
  show ?case by simp
next
  case (Cons p ps)
  have "py_strip (py_join '' '' (py_split p)) = collapse p"
    "py_split (py_strip (py_join '' '' (py_split p))) = py_split p"
    using collapse_clean [of p] by (simp_all add: collapse_def)
  then show ?case using Cons by (simp add: Let_def)
qed

lemma detect_paragraphs_spec: "detect_paragraphs text = spec_paragraphs text"
proof (cases "text = []")
  case True
  have "py_strip [] = []" by (simp add: py_strip_def)
  then show ?thesis using True
    by (simp add: detect_paragraphs_def spec_paragraphs_def blocks_Nil py_split_def)
next
  case False
  then show ?thesis
    by (simp add: detect_paragraphs_def spec_paragraphs_def Let_def re_split_blocks
          clean_paragraphs_eq)
qed

subsection \<open>Separators\<close>

lemma gap_form:
  "gap cs = Some n \<Longrightarrow> \<exists>w b. cs = w @ newline # b \<and> list_all is_space w \<and> n = Suc (length w)"
proof (induction cs arbitrary: n)
  case Nil
  then show ?case by simp
next
  case (Cons c cs)
  from Cons.prems have sp: "is_space c" by (simp split: if_splits)
  show ?case
  proof (cases "gap cs")
    case None
    with Cons.prems sp have "c = newline" "n = 1" by (simp_all split: if_splits)
    then have "c # cs = [] @ newline # cs \<and> list_all is_space [] \<and> n = Suc (length ([] :: pystr))"
      by simp
    then show ?thesis by blast
  next
    case (Some m)
    with Cons.prems sp have n: "n = Suc m" by simp
    from Cons.IH [OF Some] obtain w b where "cs = w @ newline # b" "list_all is_space w" "m = Suc (length w)"
      by blast
    with sp n have "c # cs = (c # w) @ newline # b \<and> list_all is_space (c # w) \<and> n = Suc (length (c # w))"
      by simp
    then show ?thesis by blast
  qed
qed

lemma gap_found: "list_all is_space w \<Longrightarrow> gap (w @ newline # b) \<noteq> None"
proof (induction w)
  case Nil
  show ?case using gap_newline by simp
next
  case (Cons c w)
  then show ?case by (auto split: option.splits)
qed

lemma first_break_form:
  "first_break s = Some (i, n) \<Longrightarrow>
   \<exists>w b. s = take i s @ [newline] @ w @ [newline] @ b \<and> list_all is_space w
         \<and> n = length w + 2 \<and> drop (i + n) s = b"
proof (induction s arbitrary: i n)
  case Nil
  then show ?case by simp
next
  case (Cons c cs)
  show ?case
  proof (cases "if c = newline then gap cs else None")
    case (Some m)
    then have c: "c = newline" and g: "gap cs = Some m" by (simp_all split: if_splits)
    with Cons.prems have i: "i = 0" and n: "n = Suc m" by simp_all
    from gap_form [OF g] obtain w b where "cs = w @ newline # b" "list_all is_space w" "m = Suc (length w)"
      by blast
    with c i n have "c # cs = take i (c # cs) @ [newline] @ w @ [newline] @ b \<and> list_all is_space w
        \<and> n = length w + 2 \<and> drop (i + n) (c # cs) = b"
      by simp
    then show ?thesis by blast
  next
    case None
    with Cons.prems obtain j where fb: "first_break cs = Some (j, n)" and i: "i = Suc j"
      by (auto split: option.splits)
    from Cons.IH [OF fb] obtain w b where "cs = take j cs @ [newline] @ w @ [newline] @ b"
      "list_all is_space w" "n = length w + 2" "drop (j + n) cs = b"
      by blast
    with i have "c # cs = take i (c # cs) @ [newline] @ w @ [newline] @ b \<and> list_all is_space w
        \<and> n = length w + 2 \<and> drop (i + n) (c # cs) = b"
      by simp
    then show ?thesis by blast
  qed
qed

lemma first_break_found:
  "list_all is_space w \<Longrightarrow> first_break (a @ [newline] @ w @ [newline] @ b) \<noteq> None"
proof (induction a)
  case Nil
  with gap_found [of w b] show ?case by (auto split: option.splits)
next
  case (Cons c a)
  then show ?case by (auto split: option.splits)
qed

lemma has_separator_iff: "has_separator s = (first_break s \<noteq> None)"
proof
  assume "has_separator s"
  then show "first_break s \<noteq> None"
    unfolding has_separator_def using first_break_found by blast
next
  assume "first_break s \<noteq> None"
  then obtain i n where "first_break s = Some (i, n)" by auto
  from first_break_form [OF this] show "has_separator s"
    unfolding has_separator_def by blast
qed

lemma blocks_no_separator: "\<not> has_separator s \<Longrightarrow> blocks s = [s]"
proof -
  assume "\<not> has_separator s"
  then have none: "first_break s = None" unfolding has_separator_iff by (cases "first_break s") auto
  show ?thesis by (subst blocks.simps) (simp add: none)
qed

lemma blocks_separator:
  "first_break s = Some (i, n) \<Longrightarrow> blocks s = take i s # blocks (drop (i + n) s)"
  by (subst blocks.simps) simp

subsection \<open>The tokens of the blocks are the tokens of the text\<close>

lemma split_run_space:
  "is_space c \<Longrightarrow> split_run (a @ c # b) cur = split_run a cur @ split_run b []"
  by (induction a arbitrary: cur) simp_all

lemma py_split_space: "is_space c \<Longrightarrow> py_split (a @ c # b) = py_split a @ py_split b"
  by (simp add: py_split_def split_run_space)

lemma py_split_leading: "list_all is_space w \<Longrightarrow> py_split (w @ b) = py_split b"
proof (induction w)
  case Nil
  show ?case by simp
next
  case (Cons c w)
  then have "py_split ([] @ c # (w @ b)) = py_split [] @ py_split (w @ b)"
    by (intro py_split_space) simp
  with Cons show ?case by (simp add: py_split_def)
qed

lemma py_split_separator:
  "list_all is_space w \<Longrightarrow>
   py_split (a @ [newline] @ w @ [newline] @ b) = py_split a @ py_split b"
proof -
  assume w: "list_all is_space w"
  have "py_split (a @ newline # (w @ [newline] @ b)) = py_split a @ py_split (w @ [newline] @ b)"
    by (rule py_split_space) (rule is_space_newline)
  also have "py_split (w @ [newline] @ b) = py_split ([newline] @ b)"
    using w by (rule py_split_leading)
  also have "py_split ([newline] @ b) = py_split b"
    by (rule py_split_leading) (simp add: is_space_newline)
  finally show ?thesis by simp
qed

lemma blocks_tokens: "concat (map py_split (blocks s)) = py_split s"
proof (induction s rule: length_induct)
  case (1 s)
  show ?case
  proof (cases "first_break s")
    case None
    then have "blocks s = [s]" by (subst blocks.simps) simp
    then show ?thesis by simp
  next
    case (Some p)
    obtain i n where p: "p = (i, n)" by (cases p)
    with Some have fb: "first_break s = Some (i, n)" by simp
    from first_break_form [OF fb] obtain w b where
      s: "s = take i s @ [newline] @ w @ [newline] @ b" and w: "list_all is_space w"
      and b: "drop (i + n) s = b" by blast
    from first_break_bounds [OF fb] have "length (drop (i + n) s) < length s" by simp arith
    with 1 have ih: "concat (map py_split (blocks (drop (i + n) s))) = py_split (drop (i + n) s)"
      by blast
    have "py_split s = py_split (take i s) @ py_split b"
      by (subst s) (rule py_split_separator [OF w])
    then show ?thesis unfolding blocks_separator [OF fb] using ih b by simp
  qed
qed

lemma takeWhile_all: "list_all P (takeWhile P xs)"
  by (induction xs) simp_all

lemma py_split_strip: "py_split (py_strip s) = py_split s"
proof -
  have lead: "py_split (dropWhile is_space u) = py_split u" for u
  proof -
    have "py_split (takeWhile is_space u @ dropWhile is_space u) = py_split (dropWhile is_space u)"
      by (rule py_split_leading) (rule takeWhile_all)
    then show ?thesis by simp
  qed
  have trail: "split_run (u @ w) cur = split_run u cur" if "list_all is_space w" for u w cur
    using that
  proof (induction w arbitrary: u rule: rev_induct)
    case Nil
    show ?case by simp
  next
    case (snoc c w)
    then have "split_run ((u @ w) @ c # []) cur = split_run (u @ w) cur @ split_run [] []"
      by (intro split_run_space) simp
    with snoc show ?case by simp
  qed
  define d where "d = dropWhile is_space s"
  define u where "u = rev (dropWhile is_space (rev d))"
  define t where "t = rev (takeWhile is_space (rev d))"
  have "u @ t = rev (takeWhile is_space (rev d) @ dropWhile is_space (rev d))"
    unfolding u_def t_def by (simp only: rev_append)
  then have d: "d = u @ t" by simp
  have "list_all is_space t"
    unfolding t_def by (simp add: takeWhile_all)
  then have "split_run (u @ t) [] = split_run u []" by (rule trail)
  then have "py_split (py_strip s) = py_split d"
    unfolding py_split_def py_strip_def d_def [symmetric] u_def [symmetric] d [symmetric] by simp
  then show ?thesis using lead [of s] by (simp add: d_def)
qed

lemma paragraph_tokens_subseq:
  "subseq (concat (map py_split (spec_paragraphs text))) (py_split text)"
proof -
  have "subseq (concat (map py_split (filter P bs))) (concat (map py_split bs))" for P bs
  proof (induction bs)
    case Nil
    show ?case by simp
  next
    case (Cons b bs)
    then show ?case by (auto intro: list_emb_append_mono list_emb_append2)
  qed
  from this [of "\<lambda>b. 3 \<le> length (py_split b)" "blocks (py_strip text)"]
  show ?thesis
    unfolding spec_paragraphs_def blocks_tokens py_split_strip
    by (simp add: comp_def collapse_clean cong: map_cong)
qed

subsection \<open>The first separator is the leftmost and the longest\<close>

lemma gap_maximal: "gap cs = Some n \<Longrightarrow> gap (drop n cs) = None"
proof (induction cs arbitrary: n)
  case Nil
  then show ?case by simp
next
  case (Cons c cs)
  show ?case
  proof (cases "gap cs")
    case None
    with Cons.prems have "n = 1" by (simp split: if_splits)
    with None show ?thesis by simp
  next
    case (Some m)
    with Cons.prems have "n = Suc m" by (simp split: if_splits)
    with Cons.IH [OF Some] show ?thesis by simp
  qed
qed

lemma first_break_rest:
  "first_break s = Some (i, n) \<Longrightarrow> gap (drop (i + n) s) = None"
proof (induction s arbitrary: i n)
  case Nil
  then show ?case by simp
next
  case (Cons c cs)
  show ?case
  proof (cases "if c = newline then gap cs else None")
    case (Some m)
    with Cons.prems have "i = 0" "n = Suc m" "gap cs = Some m" by (simp_all split: if_splits)
    with gap_maximal [of cs m] show ?thesis by simp
  next
    case None
    with Cons.prems obtain j where "first_break cs = Some (j, n)" "i = Suc j"
      by (auto split: option.splits)
    with Cons.IH [of j n] show ?thesis by simp
  qed
qed

lemma first_break_not_extended:
  "first_break s = Some (i, n) \<Longrightarrow>
   \<not> (\<exists>w b. drop (i + n) s = w @ [newline] @ b \<and> list_all is_space w)"
proof
  assume "first_break s = Some (i, n)"
  then have none: "gap (drop (i + n) s) = None" by (rule first_break_rest)
  assume "\<exists>w b. drop (i + n) s = w @ [newline] @ b \<and> list_all is_space w"
  then obtain w b where "drop (i + n) s = w @ newline # b" "list_all is_space w" by auto
  with gap_found [of w b] none show False by simp
qed

lemma first_break_index:
  "list_all is_space w \<Longrightarrow>
   \<exists>j m. first_break (a @ [newline] @ w @ [newline] @ b) = Some (j, m) \<and> j \<le> length a"
proof (induction a)
  case Nil
  with gap_found [of w b] show ?case by (auto split: option.splits)
next
  case (Cons c a)
  define rest where "rest = a @ [newline] @ w @ [newline] @ b"
  from Cons obtain j m where jm: "first_break rest = Some (j, m)" "j \<le> length a"
    unfolding rest_def by blast
  have "\<exists>j m. first_break (c # rest) = Some (j, m) \<and> j \<le> length (c # a)"
  proof (cases "if c = newline then gap rest else None")
    case None
    with jm show ?thesis by simp
  next
    case (Some k)
    then show ?thesis by simp
  qed
  then show ?case unfolding rest_def by simp
qed

lemma first_break_leftmost:
  assumes "first_break s = Some (i, n)"
  shows "\<not> has_separator (take (Suc i) s)"
proof
  assume "has_separator (take (Suc i) s)"
  then obtain a w b where t: "take (Suc i) s = a @ [newline] @ w @ [newline] @ b"
    and w: "list_all is_space w"
    unfolding has_separator_def by blast
  from first_break_bounds [OF assms] have "length (take (Suc i) s) = Suc i" by simp
  with t have a: "length a < i" by simp
  have "s = take (Suc i) s @ drop (Suc i) s" by simp
  then have s: "s = a @ [newline] @ w @ [newline] @ (b @ drop (Suc i) s)"
    unfolding t by simp
  from first_break_index [OF w, of a "b @ drop (Suc i) s"] obtain j m where
    "first_break (a @ [newline] @ w @ [newline] @ (b @ drop (Suc i) s)) = Some (j, m)" "j \<le> length a"
    by blast
  with s assms have "i \<le> length a" by simp
  with a show False by simp
qed

subsection \<open>Paragraphs\<close>

lemma blocks_length: "has_separator s = (1 < length (blocks s))"
proof (cases "first_break s")
  case None
  then have "blocks s = [s]" by (subst blocks.simps) simp
  with None show ?thesis by (simp add: has_separator_iff)
next
  case (Some p)
  obtain i n where "p = (i, n)" by (cases p)
  with Some have fb: "first_break s = Some (i, n)" by simp
  have "1 < length (blocks s)"
    unfolding blocks_separator [OF fb] using blocks_nonempty [of "drop (i + n) s"]
    by (cases "blocks (drop (i + n) s)") simp_all
  with Some show ?thesis by (simp add: has_separator_iff)
qed

lemma paragraph_shape:
  "list_all (\<lambda>p. 3 \<le> length (py_split p) \<and> collapse p = p \<and> py_strip p = p)
     (spec_paragraphs text)"
proof -
  have "3 \<le> length (py_split (collapse b)) \<and> collapse (collapse b) = collapse b
      \<and> py_strip (collapse b) = collapse b" if "3 \<le> length (py_split b)" for b
  proof -
    have "collapse (collapse b) = py_join '' '' (py_split (collapse b))" by (simp add: collapse_def)
    also have "\<dots> = collapse b" unfolding collapse_clean by (simp add: collapse_def)
    finally show ?thesis using that by (simp add: collapse_clean)
  qed
  then show ?thesis by (simp add: spec_paragraphs_def list_all_iff)
qed

text \<open>
  C5. The segmentation trims the text, splits it at its separators (a newline,
  optional white space and at least one further newline; the first separator is the
  leftmost one, taken as long as it can be) and nowhere else, collapses
  each block to its tokens joined by single spaces and keeps, in order, the blocks
  with at least three tokens. A text without a separator, in particular one whose
  newlines are all single, is not split. Every paragraph returned has at least three
  tokens, single spaces between them and no white space around them, and the tokens of
  the paragraphs are tokens of the text in their order. The empty text has no
  paragraphs.
\<close>

theorem detect_paragraphs_segmentation:
  "detect_paragraphs text
     = map collapse (filter (\<lambda>b. 3 \<le> length (py_split b)) (blocks (py_strip text)))
   \<and> detect_paragraphs text = spec_paragraphs text
   \<and> re_split paragraph_break (py_strip text) = blocks (py_strip text)
   \<and> has_separator (py_strip text) = (1 < length (blocks (py_strip text)))
   \<and> (\<not> has_separator (py_strip text) \<longrightarrow>
         blocks (py_strip text) = [py_strip text] \<and> length (detect_paragraphs text) \<le> 1)
   \<and> (first_break (py_strip text) = Some (i, n) \<longrightarrow>
         (\<exists>w b. py_strip text = take i (py_strip text) @ [newline] @ w @ [newline] @ b
                \<and> list_all is_space w \<and> n = length w + 2)
         \<and> \<not> has_separator (take (Suc i) (py_strip text))
         \<and> \<not> (\<exists>w b. drop (i + n) (py_strip text) = w @ [newline] @ b \<and> list_all is_space w)
         \<and> blocks (py_strip text)
             = take i (py_strip text) # blocks (drop (i + n) (py_strip text)))
   \<and> list_all (\<lambda>p. 3 \<le> length (py_split p) \<and> collapse p = p \<and> py_strip p = p)
        (detect_paragraphs text)
   \<and> subseq (concat (map py_split (detect_paragraphs text))) (py_split text)
   \<and> detect_paragraphs [] = []"
proof (intro conjI impI)
  show "detect_paragraphs text
     = map collapse (filter (\<lambda>b. 3 \<le> length (py_split b)) (blocks (py_strip text)))"
    by (simp add: detect_paragraphs_spec spec_paragraphs_def)
  show "detect_paragraphs text = spec_paragraphs text" by (rule detect_paragraphs_spec)
  show "re_split paragraph_break (py_strip text) = blocks (py_strip text)" by (rule re_split_blocks)
  show "has_separator (py_strip text) = (1 < length (blocks (py_strip text)))" by (rule blocks_length)
  show "blocks (py_strip text) = [py_strip text]" if "\<not> has_separator (py_strip text)"
    using that by (rule blocks_no_separator)
  show "length (detect_paragraphs text) \<le> 1" if "\<not> has_separator (py_strip text)"
    using blocks_no_separator [OF that] by (simp add: detect_paragraphs_spec spec_paragraphs_def)
  show "\<exists>w b. py_strip text = take i (py_strip text) @ [newline] @ w @ [newline] @ b
                \<and> list_all is_space w \<and> n = length w + 2"
    if "first_break (py_strip text) = Some (i, n)"
    using first_break_form [OF that] by blast
  show "blocks (py_strip text) = take i (py_strip text) # blocks (drop (i + n) (py_strip text))"
    if "first_break (py_strip text) = Some (i, n)"
    using that by (rule blocks_separator)
  show "\<not> has_separator (take (Suc i) (py_strip text))"
    if "first_break (py_strip text) = Some (i, n)"
    using that by (rule first_break_leftmost)
  show "\<not> (\<exists>w b. drop (i + n) (py_strip text) = w @ [newline] @ b \<and> list_all is_space w)"
    if "first_break (py_strip text) = Some (i, n)"
    using that by (rule first_break_not_extended)
  show "list_all (\<lambda>p. 3 \<le> length (py_split p) \<and> collapse p = p \<and> py_strip p = p)
        (detect_paragraphs text)"
    unfolding detect_paragraphs_spec by (rule paragraph_shape)
  show "subseq (concat (map py_split (detect_paragraphs text))) (py_split text)"
    unfolding detect_paragraphs_spec by (rule paragraph_tokens_subseq)
  show "detect_paragraphs [] = []" by (simp add: detect_paragraphs_def)
qed

lemma sample_paragraphs:
  "detect_paragraphs sample_single_newline = [''one two three four five six'']"
  "detect_paragraphs sample_blank_line = [''one two three'', ''four five six'']"
  "detect_paragraphs sample_short_block = [''three four five'']"
  by code_simp+

lemma sample_breaks:
  "first_break (py_strip sample_single_newline) = None"
  "first_break (py_strip sample_blank_line) = Some (13, 2)"
  by code_simp+

lemma sample_blocks:
  "take 13 (py_strip sample_blank_line) = ''one two three''"
  "drop (13 + 2) (py_strip sample_blank_line) = ''four five six''"
  "blocks ''four five six'' = [''four five six'']"
  by code_simp+

theorem detect_paragraphs_segmentation_witness:
  "\<not> has_separator (py_strip sample_single_newline)
   \<and> length (detect_paragraphs sample_single_newline) \<le> 1
   \<and> detect_paragraphs sample_single_newline = [''one two three four five six'']
   \<and> first_break (py_strip sample_blank_line) = Some (13, 2)
   \<and> blocks (py_strip sample_blank_line) = [''one two three'', ''four five six'']
   \<and> detect_paragraphs sample_blank_line = [''one two three'', ''four five six'']
   \<and> detect_paragraphs sample_short_block = [''three four five'']"
proof -
  have none: "\<not> has_separator (py_strip sample_single_newline)"
    by (simp add: has_separator_iff sample_breaks)
  from detect_paragraphs_segmentation [of sample_single_newline] none
  have one: "length (detect_paragraphs sample_single_newline) \<le> 1" by blast
  from detect_paragraphs_segmentation [of sample_blank_line 13 2] sample_breaks(2)
  have "blocks (py_strip sample_blank_line)
      = take 13 (py_strip sample_blank_line) # blocks (drop (13 + 2) (py_strip sample_blank_line))"
    by blast
  then have two: "blocks (py_strip sample_blank_line) = [''one two three'', ''four five six'']"
    unfolding sample_blocks .
  show ?thesis
    by (intro conjI) (fact none one two sample_breaks sample_paragraphs)+
qed

section \<open>Segmenting the joined paragraphs again\<close>

lemma join_chars:
  "set (py_join sep ws) \<subseteq> set sep \<union> \<Union> (set ` set ws)"
  by (induction sep ws rule: py_join.induct) auto

lemma paragraph_facts:
  assumes "3 \<le> length (py_split p)" "collapse p = p"
  shows "p \<noteq> []" "\<not> is_space (hd p)" "\<not> is_space (last p)" "newline \<notin> set p"
proof -
  define ws where "ws = py_split p"
  have p: "p = py_join '' '' ws" using assms(2) by (simp add: collapse_def ws_def)
  have tok: "list_all is_token ws" unfolding ws_def by (rule py_split_tokens)
  have ne: "ws \<noteq> []" using assms(1) by (auto simp: ws_def)
  note ends = py_join_ends [OF ne tokens_nonempty [OF tok], of "'' ''"]
  show "p \<noteq> []" using ends(1) p by simp
  have "is_token (hd ws)" "is_token (last ws)" using tok ne by (simp_all add: list_all_iff)
  with token_ends have e: "\<not> is_space (hd (hd ws))" "\<not> is_space (last (last ws))" by blast+
  show "\<not> is_space (hd p)" using e(1) ends(2) p by simp
  show "\<not> is_space (last p)" using e(2) ends(3) p by simp
  show "newline \<notin> set p"
  proof
    assume "newline \<in> set p"
    with join_chars [of "'' ''" ws] p have "newline \<in> set '' '' \<or> (\<exists>w \<in> set ws. newline \<in> set w)"
      by auto
    then show False
    proof
      assume "newline \<in> set '' ''"
      then show False by (simp add: newline_def)
    next
      assume "\<exists>w \<in> set ws. newline \<in> set w"
      then obtain w where "w \<in> set ws" "newline \<in> set w" by blast
      with tok have "\<not> is_space newline" by (auto simp: list_all_iff is_token_def)
      with is_space_newline show False by simp
    qed
  qed
qed

lemma gap_nonspace: "q \<noteq> [] \<Longrightarrow> \<not> is_space (hd q) \<Longrightarrow> gap q = None"
  by (cases q) simp_all

lemma first_break_no_newline: "newline \<notin> set p \<Longrightarrow> first_break p = None"
  by (induction p) auto

lemma first_break_join:
  assumes "newline \<notin> set p" "q \<noteq> []" "\<not> is_space (hd q)"
  shows "first_break (p @ newline # newline # q) = Some (length p, 2)"
  using assms(1)
proof (induction p)
  case Nil
  have "gap (newline # q) = Some 1"
    using gap_nonspace [OF assms(2,3)] by (simp add: is_space_newline)
  then show ?case by simp
next
  case (Cons c p)
  then show ?case by auto
qed

lemma blocks_join:
  assumes "ps \<noteq> []"
    and "list_all (\<lambda>p. p \<noteq> [] \<and> \<not> is_space (hd p) \<and> newline \<notin> set p) ps"
  shows "blocks (py_join [newline, newline] ps) = ps"
  using assms
proof (induction "[newline, newline]" ps rule: py_join.induct)
  case 1
  then show ?case by simp
next
  case (2 x)
  then have "first_break x = None" by (simp add: first_break_no_newline)
  then show ?case by (subst blocks.simps) simp
next
  case (3 x y ys)
  let ?q = "py_join [newline, newline] (y # ys)"
  from "3.prems" have x: "newline \<notin> set x" and rest: "list_all (\<lambda>p. p \<noteq> []) (y # ys)"
    and y: "y \<noteq> []" "\<not> is_space (hd y)"
    by (simp_all add: list_all_iff)
  have q: "?q \<noteq> []" "hd ?q = hd (hd (y # ys))"
    using py_join_ends [OF _ rest, of "[newline, newline]"] by simp_all
  then have fb: "first_break (x @ newline # newline # ?q) = Some (length x, 2)"
    using y by (intro first_break_join x) simp_all
  have ih: "blocks ?q = y # ys" using 3 by simp
  have "blocks (py_join [newline, newline] (x # y # ys)) = blocks (x @ newline # newline # ?q)"
    by simp
  also have "\<dots> = x # blocks ?q"
    unfolding blocks_separator [OF fb] by simp
  finally show ?case unfolding ih .
qed

lemma resegment:
  assumes "list_all (\<lambda>p. 3 \<le> length (py_split p) \<and> collapse p = p \<and> py_strip p = p) ps"
  shows "detect_paragraphs (py_join [newline, newline] ps) = ps"
proof (cases "ps = []")
  case True
  then show ?thesis by (simp add: detect_paragraphs_def)
next
  case False
  let ?body = "py_join [newline, newline] ps"
  have facts: "list_all (\<lambda>p. p \<noteq> [] \<and> \<not> is_space (hd p) \<and> newline \<notin> set p) ps"
    and lasts: "list_all (\<lambda>p. \<not> is_space (last p)) ps"
    using assms paragraph_facts unfolding list_all_iff by blast+
  then have ne: "list_all (\<lambda>p. p \<noteq> []) ps" by (simp add: list_all_iff)
  note ends = py_join_ends [OF False ne, of "[newline, newline]"]
  have "\<not> is_space (hd (hd ps))" "\<not> is_space (last (last ps))"
    using facts lasts False by (simp_all add: list_all_iff)
  then have strip: "py_strip ?body = ?body"
    using ends by (intro py_strip_id) simp_all
  have keep: "filter (\<lambda>b. 3 \<le> length (py_split b)) ps = ps"
    using assms by (simp add: list_all_iff)
  have same: "map collapse ps = ps"
    using assms by (simp add: list_all_iff map_idI)
  show ?thesis
    unfolding detect_paragraphs_spec spec_paragraphs_def strip blocks_join [OF False facts] keep same ..
qed

text \<open>
  C7. Segmenting a text, joining the paragraphs with the blank-line separator and
  segmenting the result again gives the same paragraphs.
\<close>

theorem detect_paragraphs_roundtrip:
  "detect_paragraphs (extract_body_text (detect_paragraphs text)) = detect_paragraphs text"
proof -
  have "extract_body_text ps = py_join [newline, newline] ps" for ps
    by (simp add: extract_body_text_def newline_def)
  moreover have "list_all (\<lambda>p. 3 \<le> length (py_split p) \<and> collapse p = p \<and> py_strip p = p)
      (detect_paragraphs text)"
    unfolding detect_paragraphs_spec by (rule paragraph_shape)
  ultimately show ?thesis by (simp add: resegment)
qed

lemma sample_roundtrip:
  "extract_body_text (detect_paragraphs sample_blank_line)
     = ''one two three'' @ [CHR 0x0A, CHR 0x0A] @ ''four five six''"
  "detect_paragraphs (extract_body_text (detect_paragraphs sample_short_block)) = [''three four five'']"
  by code_simp+

end
